theory Spec2Isabelle
  imports Main "HOL-Library.Word" "HOL-Library.Monad_Syntax"
begin

unbundle bit_operations_syntax

section \<open>Entity handles\<close>

text \<open>
  An entity handle is a 64-bit word: the slot (entity id) in the low 32 bits, the version
  in the high 32 bits.
\<close>

type_synonym u8 = "8 word"
type_synonym u64 = "64 word"
type_synonym Entity_Handle = "64 word"
type_synonym Entity_ID = "32 word"
type_synonym Entity_Version = "32 word"

definition null_handle :: Entity_Handle where
  "null_handle = - 1"

definition null_entity_id :: Entity_ID where
  "null_entity_id = - 1"

definition get_entity_version :: "Entity_Handle \<Rightarrow> Entity_Version" where
  "get_entity_version e = ucast (drop_bit 32 e)"

definition get_entity_id :: "Entity_Handle \<Rightarrow> Entity_ID" where
  "get_entity_id e = ucast e"

definition make_handle :: "Entity_ID \<Rightarrow> Entity_Version \<Rightarrow> Entity_Handle" where
  "make_handle i v = push_bit 32 (ucast v) OR ucast i"

section \<open>Memory\<close>

text \<open>
  A pointer to a heap array is either \<open>nullptr\<close> or the address of a block together with
  the cells of that block. Every block has one owner (the World owns the identity table
  and the pool array, a pool owns its sparse, dense and payload arrays), so the cells
  travel with the owner's pointer. Any other pointer (the pool pointers a view keeps, a
  reference \<open>T&\<close> handed to the client) is an address, looked up among the blocks in use
  and the blocks waiting in the deferred-free buffer when it is followed; a block that has
  been freed is behind no pointer. A cell of a block of scalars is \<open>None\<close> while it is
  uninitialised, as \<open>new T[n]\<close> leaves it.

  Reading a cell outside the block or through \<open>nullptr\<close> is undefined behaviour in the
  source; here every such read or write is the result \<open>None\<close>, and so is a failed
  \<open>assert\<close>.
\<close>

datatype 'c array = nullptr | Array nat "'c list"

fun index :: "'c array \<Rightarrow> nat \<Rightarrow> 'c option" where
  "index nullptr i = None"
| "index (Array a cs) i = (if i < length cs then Some (cs ! i) else None)"

fun store :: "'c array \<Rightarrow> nat \<Rightarrow> 'c \<Rightarrow> 'c array option" where
  "store nullptr i c = None"
| "store (Array a cs) i c = (if i < length cs then Some (Array a (cs[i := c])) else None)"

text \<open>The address in a pointer.\<close>

fun address :: "'c array \<Rightarrow> nat option" where
  "address nullptr = None"
| "address (Array a cs) = Some a"

text \<open>The cells behind a pointer; none behind \<open>nullptr\<close>.\<close>

fun cells :: "'c array \<Rightarrow> 'c list" where
  "cells nullptr = []"
| "cells (Array a cs) = cs"

text \<open>Reading a scalar: the cell must be inside the block and initialised.\<close>

definition load :: "'a option array \<Rightarrow> nat \<Rightarrow> 'a option" where
  "load p i = Option.bind (index p i) (\<lambda>c. c)"

text \<open>An index of type \<open>i64\<close>: a negative one points before the block.\<close>

definition store_at :: "'c array \<Rightarrow> int \<Rightarrow> 'c \<Rightarrow> 'c array option" where
  "store_at p i c = (if i < 0 then None else store p (nat i) c)"

text \<open>\<open>mem_copy(dst, src, count)\<close>: the loop \<open>dst[i] = src[i]\<close> over \<open>[0..<count]\<close>.\<close>

fun mem_copy :: "'c array \<Rightarrow> 'c array \<Rightarrow> nat list \<Rightarrow> 'c array option" where
  "mem_copy dst src [] = Some dst"
| "mem_copy dst src (i # js) =
     do { c \<leftarrow> index src i; d \<leftarrow> store dst i c; mem_copy d src js }"

text \<open>A component value of \<open>n\<close> bytes read from, or written to, a payload array.\<close>

fun read_bytes :: "'c array \<Rightarrow> nat \<Rightarrow> nat \<Rightarrow> 'c list option" where
  "read_bytes nullptr off n = None"
| "read_bytes (Array a cs) off n =
     (if off + n \<le> length cs then Some (take n (drop off cs)) else None)"

fun write_bytes :: "'c array \<Rightarrow> nat \<Rightarrow> 'c list \<Rightarrow> 'c array option" where
  "write_bytes nullptr off bs = None"
| "write_bytes (Array a cs) off bs =
     (if off + length bs \<le> length cs
      then Some (Array a (take off cs @ bs @ drop (off + length bs) cs)) else None)"

text \<open>\<open>n - 1\<close> and \<open>n--\<close> on a \<open>u64\<close>: zero wraps around.\<close>

definition dec :: "nat \<Rightarrow> nat" where
  "dec n = (if n = 0 then 2 ^ 64 - 1 else n - 1)"

definition assert :: "bool \<Rightarrow> unit option" where
  "assert b = (if b then Some () else None)"

section \<open>Component pools and the World\<close>

text \<open>
  Sizes, counts and capacities are \<open>u64\<close> in the source; they are natural numbers here,
  since each is bounded by the length of an allocated block. \<open>alive_count\<close> is tied to no
  block and stays a 64-bit word. The hooks \<open>on_create\<close> and \<open>on_destroy\<close> hold a name
  \<open>'h\<close> of a client function, \<open>None\<close> for an empty \<open>std::function\<close>. The fields \<open>id\<close> of
  a pool and \<open>pools\<close>, \<open>pool_count\<close> of a view are written \<open>type_id\<close>, \<open>view_pools\<close>,
  \<open>view_pool_count\<close>.
\<close>

record 'h Component_Pool =
  sparse :: "int option array"
  sparse_capacity :: nat
  dense :: "Entity_Handle option array"
  dense_count :: nat
  dense_capacity :: nat
  data :: "u8 option array"
  count :: nat
  capacity :: nat
  element_size :: nat
  type_id :: u64
  on_create :: "'h option"
  on_destroy :: "'h option"

text \<open>
  A \<open>Deletion_Entry\<close> is its \<open>Delete_Type\<close> tag and its pointer, here with the block
  behind the pointer as it was left.
\<close>

datatype 'h Deletion_Entry =
    U8 "u8 option array"
  | U64 "u64 option array"
  | I64 "int option array"
  | COMPONENT_POOL "'h Component_Pool array"
  | ENTITY_HANDLE "Entity_Handle option array"

text \<open>
  \<open>delete_buffer\<close> lists the entries \<open>[0, delete_buffer_count)\<close> of the fixed buffer of 64.
  \<open>heap_next\<close> and \<open>heap_freed\<close> are the allocator: the next fresh address, and the
  addresses handed to \<open>delete[]\<close> so far, latest first. \<open>uptr\<close> is the user data behind
  the public \<open>void*\<close>.
\<close>

record ('h, 'u) World =
  entities :: "Entity_Handle option array"
  entity_capacity :: nat
  entity_count :: nat
  alive_count :: u64
  avail_id :: Entity_ID
  pools :: "'h Component_Pool array"
  pool_count :: nat
  pool_capacity :: nat
  delete_buffer :: "'h Deletion_Entry list"
  iteration_depth :: int
  uptr :: 'u
  heap_next :: nat
  heap_freed :: "nat list"

definition Component_Pool_default :: "'h Component_Pool" where
  "Component_Pool_default =
     \<lparr> sparse = nullptr, sparse_capacity = 0, dense = nullptr, dense_count = 0,
       dense_capacity = 0, data = nullptr, count = 0, capacity = 0, element_size = 0,
       type_id = - 1, on_create = None, on_destroy = None \<rparr>"

definition World_default :: "'u \<Rightarrow> ('h, 'u) World" where
  "World_default u =
     \<lparr> entities = nullptr, entity_capacity = 0, entity_count = 0, alive_count = 0,
       avail_id = null_entity_id, pools = nullptr, pool_count = 0, pool_capacity = 0,
       delete_buffer = [], iteration_depth = 0, uptr = u, heap_next = 0, heap_freed = [] \<rparr>"

definition new_array :: "('h, 'u) World \<Rightarrow> nat \<Rightarrow> 'c \<Rightarrow> 'c array \<times> ('h, 'u) World" where
  "new_array w n c = (Array (heap_next w) (replicate n c), w\<lparr>heap_next := heap_next w + 1\<rparr>)"

definition delete_array :: "('h, 'u) World \<Rightarrow> 'c array \<Rightarrow> ('h, 'u) World" where
  "delete_array w p = (case p of nullptr \<Rightarrow> w | Array a cs \<Rightarrow> w\<lparr>heap_freed := a # heap_freed w\<rparr>)"

definition push_deletion :: "('h, 'u) World \<Rightarrow> 'h Deletion_Entry \<Rightarrow> ('h, 'u) World option" where
  "push_deletion w entry =
     do { assert (length (delete_buffer w) < 64);
          Some (w\<lparr>delete_buffer := delete_buffer w @ [entry]\<rparr>) }"

definition commit_deletions :: "('h, 'u) World \<Rightarrow> ('h, 'u) World" where
  "commit_deletions w =
     (fold (\<lambda>entry v. case entry of
                U8 p \<Rightarrow> delete_array v p
              | U64 p \<Rightarrow> delete_array v p
              | I64 p \<Rightarrow> delete_array v p
              | COMPONENT_POOL p \<Rightarrow> delete_array v p
              | ENTITY_HANDLE p \<Rightarrow> delete_array v p)
        (delete_buffer w) w) \<lparr>delete_buffer := []\<rparr>"

section \<open>The identity table\<close>

definition generate_entity :: "('h, 'u) World \<Rightarrow> (('h, 'u) World \<times> Entity_Handle) option" where
  "generate_entity w =
     do { w1 \<leftarrow> (if entity_count w \<ge> entity_capacity w then
                  do { let new_capacity = (if entity_capacity w < 8 then 8 else entity_capacity w * 2);
                       let (new_alloc, wa) = new_array w new_capacity None;
                       copied \<leftarrow> mem_copy new_alloc (entities w) [0..<entity_capacity w];
                       let wb = delete_array wa (entities w);
                       Some (wb\<lparr>entity_capacity := new_capacity, entities := copied\<rparr>) }
                else Some w);
          let e = make_handle (of_nat (entity_count w1)) 0;
          es \<leftarrow> store (entities w1) (entity_count w1) (Some e);
          Some (w1\<lparr>entities := es, entity_count := entity_count w1 + 1\<rparr>, e) }"

definition recycle_entity :: "('h, 'u) World \<Rightarrow> (('h, 'u) World \<times> Entity_Handle) option" where
  "recycle_entity w =
     do { let cur_id = avail_id w;
          c \<leftarrow> load (entities w) (unat cur_id);
          let cur_version = get_entity_version c;
          let recycled = make_handle cur_id cur_version;
          es \<leftarrow> store (entities w) (unat cur_id) (Some recycled);
          Some (w\<lparr>avail_id := get_entity_id c, entities := es\<rparr>, recycled) }"

definition release_entity :: "('h, 'u) World \<Rightarrow> Entity_Handle \<Rightarrow> Entity_Version \<Rightarrow> ('h, 'u) World option" where
  "release_entity w e desired =
     do { let i = get_entity_id e;
          es \<leftarrow> store (entities w) (unat i) (Some (make_handle (avail_id w) desired));
          Some (w\<lparr>entities := es, avail_id := i\<rparr>) }"

definition new_entity :: "('h, 'u) World \<Rightarrow> (('h, 'u) World \<times> Entity_Handle) option" where
  "new_entity w =
     (let w1 = w\<lparr>alive_count := alive_count w + 1\<rparr>
      in if avail_id w1 = null_entity_id then generate_entity w1 else recycle_entity w1)"

definition World_count :: "('h, 'u) World \<Rightarrow> u64" where
  "World_count w = alive_count w"

definition World_at :: "('h, 'u) World \<Rightarrow> nat \<Rightarrow> Entity_Handle option" where
  "World_at w i = load (entities w) i"

text \<open>
  The facade \<open>Entity(h, world)\<close> is the handle \<open>h\<close> together with the World it is used
  on, which is never the null pointer here.
\<close>

definition Entity_valid :: "('h, 'u) World \<Rightarrow> Entity_Handle \<Rightarrow> bool option" where
  "Entity_valid w h =
     (let i = get_entity_id h
      in if unat i < entity_count w
         then do { c \<leftarrow> load (entities w) (unat i); Some (c = h) }
         else Some False)"

section \<open>Component pools\<close>

definition Component_Pool_init :: "'h Component_Pool \<Rightarrow> u64 \<Rightarrow> nat \<Rightarrow> 'h Component_Pool" where
  "Component_Pool_init p tid el_size = p\<lparr>element_size := el_size, type_id := tid\<rparr>"

definition sparse_idx :: "'h Component_Pool \<Rightarrow> Entity_Handle \<Rightarrow> int option" where
  "sparse_idx p e = load (sparse p) (unat (get_entity_id e))"

definition Component_Pool_has :: "'h Component_Pool \<Rightarrow> Entity_Handle \<Rightarrow> bool option" where
  "Component_Pool_has p e =
     (let i = unat (get_entity_id e)
      in if i < sparse_capacity p
         then do { s \<leftarrow> load (sparse p) i; Some (s \<noteq> - 1) }
         else Some False)"

text \<open>
  \<open>get_by_idx\<close> and \<open>get\<close> return an address inside the payload array: here the offset of
  its first byte. The \<open>i64\<close> from \<open>sparse_idx\<close> is passed as a \<open>u64\<close>.
\<close>

definition get_by_idx :: "'h Component_Pool \<Rightarrow> nat \<Rightarrow> nat" where
  "get_by_idx p i = i * element_size p"

definition Component_Pool_get :: "'h Component_Pool \<Rightarrow> Entity_Handle \<Rightarrow> nat option" where
  "Component_Pool_get p e =
     do { s \<leftarrow> sparse_idx p e; Some (get_by_idx p (nat (if s < 0 then s + 2 ^ 64 else s))) }"

text \<open>
  The block that follows each allocation in \<open>Component_Pool::add\<close> and \<open>get_pool\<close>: if there
  is an old block, copy \<open>n\<close> cells of it into the new one, then free it at once when no
  view is open, and hand it to the deferred-free buffer otherwise.
\<close>

definition carry_over :: "('h, 'u) World \<Rightarrow> 'c array \<Rightarrow> 'c array \<Rightarrow> nat \<Rightarrow> ('c array \<Rightarrow> 'h Deletion_Entry) \<Rightarrow> ('c array \<times> ('h, 'u) World) option" where
  "carry_over w new_alloc old n ty =
     (if old \<noteq> nullptr then
        do { copied \<leftarrow> mem_copy new_alloc old [0..<n];
             w1 \<leftarrow> (if iteration_depth w \<le> 0 then Some (delete_array w old)
                    else push_deletion w (ty old));
             Some (copied, w1) }
      else Some (new_alloc, w))"

text \<open>The loop \<open>sparse[i] = -1\<close> over the new cells.\<close>

fun fill_absent :: "int option array \<Rightarrow> nat list \<Rightarrow> int option array option" where
  "fill_absent sp [] = Some sp"
| "fill_absent sp (i # js) = do { s \<leftarrow> store sp i (Some (- 1)); fill_absent s js }"

text \<open>The three reallocation blocks of \<open>Component_Pool::add\<close>, in the order of the source.\<close>

definition add_grow_data :: "('h, 'u) World \<Rightarrow> 'h Component_Pool \<Rightarrow> (('h, 'u) World \<times> 'h Component_Pool) option" where
  "add_grow_data w p =
     (if count p \<ge> capacity p then
        do { let new_capacity = (if capacity p < 8 then 8 else capacity p * 2);
             let (new_alloc, wa) = new_array w (new_capacity * element_size p) None;
             (copied, wb) \<leftarrow> carry_over wa new_alloc (data p) (capacity p * element_size p) U8;
             Some (wb, p\<lparr>capacity := new_capacity, data := copied\<rparr>) }
      else Some (w, p))"

definition add_grow_sparse :: "('h, 'u) World \<Rightarrow> 'h Component_Pool \<Rightarrow> nat \<Rightarrow> (('h, 'u) World \<times> 'h Component_Pool) option" where
  "add_grow_sparse w p eid =
     (if eid \<ge> sparse_capacity p then
        do { let new_capacity = eid + 1;
             let (new_alloc, wa) = new_array w new_capacity None;
             (copied, wb) \<leftarrow> carry_over wa new_alloc (sparse p) (sparse_capacity p) I64;
             filled \<leftarrow> fill_absent copied [sparse_capacity p..<new_capacity];
             Some (wb, p\<lparr>sparse := filled, sparse_capacity := new_capacity\<rparr>) }
      else Some (w, p))"

definition add_grow_dense :: "('h, 'u) World \<Rightarrow> 'h Component_Pool \<Rightarrow> (('h, 'u) World \<times> 'h Component_Pool) option" where
  "add_grow_dense w p =
     (if dense_count p \<ge> dense_capacity p then
        do { let new_capacity = (if dense_capacity p < 8 then 8 else dense_capacity p * 2);
             let (new_alloc, wa) = new_array w new_capacity None;
             (copied, wb) \<leftarrow> carry_over wa new_alloc (dense p) (dense_capacity p) ENTITY_HANDLE;
             Some (wb, p\<lparr>dense_capacity := new_capacity, dense := copied\<rparr>) }
      else Some (w, p))"

text \<open>
  \<open>Component_Pool::add\<close> on the pool \<open>p\<close> of the World \<open>w\<close>: the World after the
  allocations, the pool, and the address \<open>new_el\<close> of the new element.
\<close>

definition Component_Pool_add :: "('h, 'u) World \<Rightarrow> 'h Component_Pool \<Rightarrow> Entity_Handle \<Rightarrow> (('h, 'u) World \<times> 'h Component_Pool \<times> nat) option" where
  "Component_Pool_add w p e =
     do { (w1, p1) \<leftarrow> add_grow_data w p;
          let new_el = count p1 * element_size p1;
          let p2 = p1\<lparr>count := count p1 + 1\<rparr>;
          let eid = unat (get_entity_id e);
          (w2, p3) \<leftarrow> add_grow_sparse w1 p2 eid;
          sp \<leftarrow> store (sparse p3) eid (Some (int (dense_count p3)));
          let p4 = p3\<lparr>sparse := sp\<rparr>;
          (w3, p5) \<leftarrow> add_grow_dense w2 p4;
          dn \<leftarrow> store (dense p5) (dense_count p5) (Some e);
          Some (w3, p5\<lparr>dense := dn, dense_count := dense_count p5 + 1\<rparr>, new_el) }"

text \<open>
  A hook is client code \<open>void(World&, const Entity&)\<close>. It is modelled as an observer:
  \<open>run f w e\<close> reads the World and the entity it is called with and yields the new user
  data behind \<open>uptr\<close>, or \<open>None\<close> when the client code fails. Hooks that call back into
  the mutating operations of the World are outside this model.
\<close>

type_synonym ('h, 'u) hooks = "'h \<Rightarrow> ('h, 'u) World \<Rightarrow> Entity_Handle \<Rightarrow> 'u option"

definition fire :: "('h, 'u) hooks \<Rightarrow> 'h option \<Rightarrow> ('h, 'u) World \<Rightarrow> Entity_Handle \<Rightarrow> ('h, 'u) World option" where
  "fire run f w e =
     (case f of None \<Rightarrow> Some w
      | Some g \<Rightarrow> do { u \<leftarrow> run g w e; Some (w\<lparr>uptr := u\<rparr>) })"

text \<open>
  \<open>Component_Pool::remove\<close> on the pool at index \<open>i\<close> of the pool array of \<open>w\<close>: the hook,
  called with the World that holds the pool, then the swap-and-pop \<open>swap_and_pop\<close>.
\<close>

definition swap_and_pop :: "'h Component_Pool \<Rightarrow> Entity_Handle \<Rightarrow> 'h Component_Pool option" where
  "swap_and_pop p e =
     do { pos \<leftarrow> load (sparse p) (unat (get_entity_id e));
          other \<leftarrow> load (dense p) (dec (dense_count p));
          sp1 \<leftarrow> store (sparse p) (unat (get_entity_id other)) (Some pos);
          dn \<leftarrow> store_at (dense p) pos (Some other);
          sp2 \<leftarrow> store sp1 (unat (get_entity_id e)) (Some (- 1));
          moved \<leftarrow> read_bytes (data p) (dec (count p) * element_size p) (element_size p);
          d \<leftarrow> write_bytes (data p) (nat pos * element_size p) moved;
          Some (p\<lparr>sparse := sp2, dense := dn, data := d,
                  dense_count := dec (dense_count p), count := dec (count p)\<rparr>) }"

definition Component_Pool_remove :: "('h, 'u) hooks \<Rightarrow> ('h, 'u) World \<Rightarrow> nat \<Rightarrow> Entity_Handle \<Rightarrow> ('h, 'u) World option" where
  "Component_Pool_remove run w i e =
     do { p \<leftarrow> index (pools w) i;
          w1 \<leftarrow> fire run (on_destroy p) w e;
          p1 \<leftarrow> swap_and_pop p e;
          ps \<leftarrow> store (pools w1) i p1;
          Some (w1\<lparr>pools := ps\<rparr>) }"

section \<open>The World\<close>

text \<open>The search loop \<open>pools[i].id == id\<close>: the first index found, if any.\<close>

fun find_pool :: "'h Component_Pool array \<Rightarrow> u64 \<Rightarrow> nat list \<Rightarrow> nat option option" where
  "find_pool ps tid [] = Some None"
| "find_pool ps tid (i # js) =
     do { p \<leftarrow> index ps i;
          if type_id p = tid then Some (Some i) else find_pool ps tid js }"

text \<open>
  \<open>get_pool<T>()\<close>, with \<open>T\<close> given by its component id and \<open>sizeof(T)\<close>: the World and the
  index of the pool in the pool array.
\<close>

definition get_pool :: "('h, 'u) World \<Rightarrow> u64 \<Rightarrow> nat \<Rightarrow> (('h, 'u) World \<times> nat) option" where
  "get_pool w tid el_size =
     do { found \<leftarrow> find_pool (pools w) tid [0..<pool_count w];
          (case found of Some i \<Rightarrow> Some (w, i)
           | None \<Rightarrow>
               do { w1 \<leftarrow> (if pool_count w \<ge> pool_capacity w then
                       do { let new_capacity = (if pool_capacity w < 8 then 8 else pool_capacity w * 2);
                            let (new_alloc, wa) = new_array w new_capacity Component_Pool_default;
                            (copied, wb) \<leftarrow> carry_over wa new_alloc (pools w) (pool_capacity w) COMPONENT_POOL;
                            Some (wb\<lparr>pools := copied, pool_capacity := new_capacity\<rparr>) }
                     else Some w);
                    let i = pool_count w1;
                    p \<leftarrow> index (pools w1) i;
                    ps \<leftarrow> store (pools w1) i (Component_Pool_init p tid el_size);
                    Some (w1\<lparr>pools := ps, pool_count := i + 1\<rparr>, i) }) }"

definition set_create_func :: "('h, 'u) World \<Rightarrow> u64 \<Rightarrow> nat \<Rightarrow> 'h option \<Rightarrow> ('h, 'u) World option" where
  "set_create_func w tid el_size f =
     do { (w1, i) \<leftarrow> get_pool w tid el_size;
          p \<leftarrow> index (pools w1) i;
          ps \<leftarrow> store (pools w1) i (p\<lparr>on_create := f\<rparr>);
          Some (w1\<lparr>pools := ps\<rparr>) }"

definition set_destroy_func :: "('h, 'u) World \<Rightarrow> u64 \<Rightarrow> nat \<Rightarrow> 'h option \<Rightarrow> ('h, 'u) World option" where
  "set_destroy_func w tid el_size f =
     do { (w1, i) \<leftarrow> get_pool w tid el_size;
          p \<leftarrow> index (pools w1) i;
          ps \<leftarrow> store (pools w1) i (p\<lparr>on_destroy := f\<rparr>);
          Some (w1\<lparr>pools := ps\<rparr>) }"

fun collect_pools :: "('h, 'u) World \<Rightarrow> nat list \<Rightarrow> ('h, 'u) World option" where
  "collect_pools w [] = Some w"
| "collect_pools w (i # js) =
     do { p \<leftarrow> index (pools w) i;
          w1 \<leftarrow> (if count p > 8 \<and> capacity p > count p * 2 then
                  do { let r = count p mod 8;
                       let shrunk = (if r \<noteq> 0 then count p + (8 - r) else count p);
                       let (new_alloc, wa) = new_array w (shrunk * element_size p) None;
                       copied \<leftarrow> mem_copy new_alloc (data p) [0..<shrunk];
                       let wb = delete_array wa (data p);
                       ps \<leftarrow> store (pools wb) i (p\<lparr>capacity := shrunk, data := copied\<rparr>);
                       Some (wb\<lparr>pools := ps\<rparr>) }
                else Some w);
          collect_pools w1 js }"

definition collect_garbage :: "('h, 'u) World \<Rightarrow> ('h, 'u) World option" where
  "collect_garbage w = (let w0 = commit_deletions w in collect_pools w0 [0..<pool_count w0])"

section \<open>Pointers kept by the client\<close>

text \<open>
  The first block with a given address among the entries of one tag in the deferred-free
  buffer.
\<close>

definition as_u8 :: "'h Deletion_Entry \<Rightarrow> u8 option array option" where
  "as_u8 x = (case x of U8 p \<Rightarrow> Some p | _ \<Rightarrow> None)"

definition as_i64 :: "'h Deletion_Entry \<Rightarrow> int option array option" where
  "as_i64 x = (case x of I64 p \<Rightarrow> Some p | _ \<Rightarrow> None)"

definition as_entity_handle :: "'h Deletion_Entry \<Rightarrow> Entity_Handle option array option" where
  "as_entity_handle x = (case x of ENTITY_HANDLE p \<Rightarrow> Some p | _ \<Rightarrow> None)"

definition as_component_pool :: "'h Deletion_Entry \<Rightarrow> 'h Component_Pool array option" where
  "as_component_pool x = (case x of COMPONENT_POOL p \<Rightarrow> Some p | _ \<Rightarrow> None)"

fun deferred_block :: "('h Deletion_Entry \<Rightarrow> 'c array option) \<Rightarrow> 'h Deletion_Entry list \<Rightarrow> nat \<Rightarrow> 'c array option" where
  "deferred_block tag [] a = None"
| "deferred_block tag (x # xs) a =
     (case tag x of None \<Rightarrow> deferred_block tag xs a
      | Some p \<Rightarrow> if address p = Some a then Some p else deferred_block tag xs a)"

text \<open>
  The block behind a pointer \<open>ptr\<close> read from a pool struct that may be out of date: the
  block \<open>live\<close> of the pool as it is now if that is the one pointed to, the block in the
  deferred-free buffer if it waits there, and no cell at all once it has been freed.
\<close>

definition behind :: "('h, 'u) World \<Rightarrow> ('h Deletion_Entry \<Rightarrow> 'c array option) \<Rightarrow> 'c array \<Rightarrow> 'c array \<Rightarrow> 'c array" where
  "behind w tag live ptr =
     (case ptr of nullptr \<Rightarrow> nullptr
      | Array a cs \<Rightarrow>
          if address live = Some a then live
          else (case deferred_block tag (delete_buffer w) a of Some d \<Rightarrow> d | None \<Rightarrow> Array a []))"

text \<open>
  A \<open>Component_Pool*\<close> kept by a view is the address of the pool array it pointed into
  and the index in it. \<open>pool_ptr w i\<close> is \<open>pools + i\<close>. \<open>follow\<close> is what \<open>->\<close> reads through
  such a pointer: the pool itself while the pool array is still the one pointed into; the
  copy of the struct left behind in the old array once \<open>get_pool\<close> has moved the pools
  and the old array waits in the deferred-free buffer (its counts and capacities as they
  were, its three pointers followed to the blocks they point to); nothing once the old
  array has been freed.
\<close>

type_synonym pool_pointer = "nat \<times> nat"

definition pool_ptr :: "('h, 'u) World \<Rightarrow> nat \<Rightarrow> pool_pointer option" where
  "pool_ptr w i = (case pools w of nullptr \<Rightarrow> None | Array a cs \<Rightarrow> Some (a, i))"

definition follow :: "('h, 'u) World \<Rightarrow> pool_pointer \<Rightarrow> 'h Component_Pool option" where
  "follow w pp =
     (if address (pools w) = Some (fst pp) then index (pools w) (snd pp)
      else
        do { old \<leftarrow> deferred_block as_component_pool (delete_buffer w) (fst pp);
             p \<leftarrow> index old (snd pp);
             let q = (case index (pools w) (snd pp) of None \<Rightarrow> Component_Pool_default | Some q \<Rightarrow> q);
             Some (p\<lparr>sparse := behind w as_i64 (sparse q) (sparse p),
                      dense := behind w as_entity_handle (dense q) (dense p),
                      data := behind w as_u8 (data q) (data p)\<rparr>) })"

text \<open>
  A reference \<open>T&\<close> is the address of a payload block, \<open>None\<close> for the null pointer, and
  the offset of the value in it. \<open>payload_owner\<close> is the index of the pool whose payload
  block has that address now.
\<close>

type_synonym reference = "nat option \<times> nat"

fun payload_owner :: "'h Component_Pool list \<Rightarrow> nat \<Rightarrow> nat \<Rightarrow> nat option" where
  "payload_owner [] a k = None"
| "payload_owner (p # ps) a k =
     (if address (data p) = Some a then Some k else payload_owner ps a (Suc k))"

text \<open>Reading \<open>el_size\<close> bytes through a reference.\<close>

definition deref :: "('h, 'u) World \<Rightarrow> reference \<Rightarrow> nat \<Rightarrow> u8 option list option" where
  "deref w r el_size =
     do { a \<leftarrow> fst r;
          (case payload_owner (cells (pools w)) a 0 of
             Some k \<Rightarrow> do { p \<leftarrow> index (pools w) k; read_bytes (data p) (snd r) el_size }
           | None \<Rightarrow> do { d \<leftarrow> deferred_block as_u8 (delete_buffer w) a;
                          read_bytes d (snd r) el_size }) }"

text \<open>Writing a value through a reference: into the block in use, or into the deferred one.\<close>

fun write_deferred :: "'h Deletion_Entry list \<Rightarrow> nat \<Rightarrow> nat \<Rightarrow> u8 option list \<Rightarrow> 'h Deletion_Entry list option" where
  "write_deferred [] a off bs = None"
| "write_deferred (x # xs) a off bs =
     (case as_u8 x of
        None \<Rightarrow> map_option ((#) x) (write_deferred xs a off bs)
      | Some d \<Rightarrow>
          if address d = Some a then map_option (\<lambda>d1. U8 d1 # xs) (write_bytes d off bs)
          else map_option ((#) x) (write_deferred xs a off bs))"

definition write_ref :: "('h, 'u) World \<Rightarrow> reference \<Rightarrow> u8 list \<Rightarrow> ('h, 'u) World option" where
  "write_ref w r c =
     do { a \<leftarrow> fst r;
          (case payload_owner (cells (pools w)) a 0 of
             Some k \<Rightarrow>
               do { p \<leftarrow> index (pools w) k;
                    d \<leftarrow> write_bytes (data p) (snd r) (map Some c);
                    ps \<leftarrow> store (pools w) k (p\<lparr>data := d\<rparr>);
                    Some (w\<lparr>pools := ps\<rparr>) }
           | None \<Rightarrow>
               do { db \<leftarrow> write_deferred (delete_buffer w) a (snd r) (map Some c);
                    Some (w\<lparr>delete_buffer := db\<rparr>) }) }"

section \<open>The entity facade\<close>

text \<open>
  A component type \<open>T\<close> is its component id together with \<open>sizeof(T)\<close>; a value of type
  \<open>T\<close> is its \<open>sizeof(T)\<close> bytes.
\<close>

definition Entity_has :: "('h, 'u) World \<Rightarrow> Entity_Handle \<Rightarrow> u64 \<Rightarrow> nat \<Rightarrow> (('h, 'u) World \<times> bool) option" where
  "Entity_has w h tid el_size =
     do { v \<leftarrow> Entity_valid w h;
          assert v;
          (w1, i) \<leftarrow> get_pool w tid el_size;
          p \<leftarrow> index (pools w1) i;
          b \<leftarrow> Component_Pool_has p h;
          Some (w1, b) }"

definition Entity_add :: "('h, 'u) hooks \<Rightarrow> ('h, 'u) World \<Rightarrow> Entity_Handle \<Rightarrow> u64 \<Rightarrow> u8 list \<Rightarrow> (('h, 'u) World \<times> reference) option" where
  "Entity_add run w h tid c =
     do { v \<leftarrow> Entity_valid w h;
          assert v;
          (w0, present) \<leftarrow> Entity_has w h tid (length c);
          assert (\<not> present);
          (w1, i) \<leftarrow> get_pool w0 tid (length c);
          p \<leftarrow> index (pools w1) i;
          (w2, p1, n) \<leftarrow> Component_Pool_add w1 p h;
          d \<leftarrow> write_bytes (data p1) n (map Some c);
          ps \<leftarrow> store (pools w2) i (p1\<lparr>data := d\<rparr>);
          w3 \<leftarrow> fire run (on_create p1) (w2\<lparr>pools := ps\<rparr>) h;
          Some (w3, address d, n) }"

definition Entity_get :: "('h, 'u) World \<Rightarrow> Entity_Handle \<Rightarrow> u64 \<Rightarrow> nat \<Rightarrow> (('h, 'u) World \<times> reference) option" where
  "Entity_get w h tid el_size =
     do { v \<leftarrow> Entity_valid w h;
          assert v;
          (w0, present) \<leftarrow> Entity_has w h tid el_size;
          assert present;
          (w1, i) \<leftarrow> get_pool w0 tid el_size;
          p \<leftarrow> index (pools w1) i;
          n \<leftarrow> Component_Pool_get p h;
          Some (w1, address (data p), n) }"

definition Entity_remove :: "('h, 'u) hooks \<Rightarrow> ('h, 'u) World \<Rightarrow> Entity_Handle \<Rightarrow> u64 \<Rightarrow> nat \<Rightarrow> ('h, 'u) World option" where
  "Entity_remove run w h tid el_size =
     do { v \<leftarrow> Entity_valid w h;
          assert v;
          (w0, present) \<leftarrow> Entity_has w h tid el_size;
          assert present;
          (w1, i) \<leftarrow> get_pool w0 tid el_size;
          Component_Pool_remove run w1 i h }"

fun destroy_pools :: "('h, 'u) hooks \<Rightarrow> ('h, 'u) World \<Rightarrow> Entity_Handle \<Rightarrow> nat list \<Rightarrow> ('h, 'u) World option" where
  "destroy_pools run w h [] = Some w"
| "destroy_pools run w h (i # js) =
     do { p \<leftarrow> index (pools w) i;
          present \<leftarrow> Component_Pool_has p h;
          w1 \<leftarrow> (if present then Component_Pool_remove run w i h else Some w);
          destroy_pools run w1 h js }"

definition Entity_destroy :: "('h, 'u) hooks \<Rightarrow> ('h, 'u) World \<Rightarrow> Entity_Handle \<Rightarrow> ('h, 'u) World option" where
  "Entity_destroy run w h =
     do { v \<leftarrow> Entity_valid w h;
          assert v;
          w1 \<leftarrow> destroy_pools run w h [0..<pool_count w];
          let nv = get_entity_version h + 1;
          w2 \<leftarrow> release_entity w1 h nv;
          Some (w2\<lparr>alive_count := alive_count w2 - 1\<rparr>) }"

section \<open>Views\<close>

text \<open>
  A view holds pointers into the pool array as it was when the view was made: \<open>Some pp\<close>
  is such a pointer, \<open>None\<close> the null pointer or a cell never written; cells of \<open>to_pool\<close>
  never written are \<open>None\<close> as well. The \<open>world\<close> of the view is the World it is used on.
\<close>

record View =
  to_pool :: "u64 option list"
  view_pools :: "pool_pointer option list"
  view_pool_count :: nat
  pool :: "pool_pointer option"
  idx :: nat
  entity :: Entity_Handle

definition View_max :: nat where
  "View_max = 16"

definition View_default :: View where
  "View_default =
     \<lparr> to_pool = replicate View_max None, view_pools = replicate View_max None,
       view_pool_count = 0, pool = None, idx = 0, entity = null_handle \<rparr>"

definition cell :: "'a option list \<Rightarrow> nat \<Rightarrow> 'a option" where
  "cell cs i = (if i < length cs then cs ! i else None)"

definition set_cell :: "'a list \<Rightarrow> nat \<Rightarrow> 'a \<Rightarrow> 'a list option" where
  "set_cell cs i c = (if i < length cs then Some (cs[i := c]) else None)"

fun contains_from :: "('h, 'u) World \<Rightarrow> View \<Rightarrow> Entity_Handle \<Rightarrow> nat list \<Rightarrow> bool option" where
  "contains_from w v h [] = Some True"
| "contains_from w v h (i # js) =
     do { pp \<leftarrow> cell (view_pools v) i;
          p \<leftarrow> follow w pp;
          present \<leftarrow> Component_Pool_has p h;
          if \<not> present then Some False else contains_from w v h js }"

definition contains :: "('h, 'u) World \<Rightarrow> View \<Rightarrow> Entity_Handle \<Rightarrow> bool option" where
  "contains w v h = contains_from w v h [0..<view_pool_count v]"

fun get_idx_from :: "View \<Rightarrow> u64 \<Rightarrow> nat list \<Rightarrow> nat option" where
  "get_idx_from v tid [] = Some 0"
| "get_idx_from v tid (i # js) =
     do { t \<leftarrow> cell (to_pool v) i;
          if t = tid then Some i else get_idx_from v tid js }"

definition get_idx :: "View \<Rightarrow> u64 \<Rightarrow> nat option" where
  "get_idx v tid = get_idx_from v tid [0..<view_pool_count v]"

text \<open>The \<open>do ... while\<close> loop of \<open>View::next\<close>; each round lowers \<open>idx\<close> or is the last.\<close>

function View_next :: "('h, 'u) World \<Rightarrow> View \<Rightarrow> View option" where
  "View_next w v =
     (if idx v \<noteq> 0 then
        do { pp \<leftarrow> pool v;
             p \<leftarrow> follow w pp;
             e \<leftarrow> load (dense p) (idx v - 1);
             let v1 = v\<lparr>idx := idx v - 1, entity := e\<rparr>;
             c \<leftarrow> (if e \<noteq> null_handle then contains w v1 e else Some True);
             if e \<noteq> null_handle \<and> \<not> c then View_next w v1 else Some v1 }
      else Some (v\<lparr>entity := null_handle\<rparr>))"
  by pat_completeness auto
termination
  by (relation "measure (\<lambda>(w, v). idx v)") auto

declare View_next.simps [simp del]

definition View_valid :: "('h, 'u) World \<Rightarrow> View \<Rightarrow> ('h, 'u) World \<times> bool" where
  "View_valid w v =
     (let valid = (entity v \<noteq> null_handle)
      in if \<not> valid then
           (let w1 = w\<lparr>iteration_depth := iteration_depth w - 1\<rparr>
            in (if iteration_depth w1 \<le> 0 then commit_deletions w1 else w1, valid))
         else (w, valid))"

definition View_get :: "('h, 'u) World \<Rightarrow> View \<Rightarrow> u64 \<Rightarrow> reference option" where
  "View_get w v tid =
     do { i \<leftarrow> get_idx v tid;
          pp \<leftarrow> cell (view_pools v) i;
          p \<leftarrow> follow w pp;
          n \<leftarrow> Component_Pool_get p (entity v);
          Some (address (data p), n) }"

definition View_get_entity :: "View \<Rightarrow> Entity_Handle" where
  "View_get_entity v = entity v"

text \<open>
  The loop of \<open>_new_view\<close> over the requested types: \<open>Inl\<close> is the early return of the
  fresh view \<open>nv\<close>, \<open>Inr\<close> the view built so far.
\<close>

fun new_view_loop :: "('h, 'u) World \<Rightarrow> u64 list \<Rightarrow> View \<Rightarrow> nat list \<Rightarrow> (View + View) option" where
  "new_view_loop w types v [] = Some (Inr v)"
| "new_view_loop w types v (i # js) =
     do { t \<leftarrow> (if i < length types then Some (types ! i) else None);
          vp0 \<leftarrow> set_cell (view_pools v) i None;
          found \<leftarrow> find_pool (pools w) t [0..<pool_count w];
          (case found of None \<Rightarrow> Some (Inl View_default)
           | Some ii \<Rightarrow>
               do { pp \<leftarrow> pool_ptr w ii;
                    vp \<leftarrow> set_cell vp0 i (Some pp);
                    p \<leftarrow> follow w pp;
                    driver \<leftarrow> (case pool v of None \<Rightarrow> Some pp
                               | Some d \<Rightarrow> do { dp \<leftarrow> follow w d;
                                                Some (if count p < count dp then pp else d) });
                    tp \<leftarrow> set_cell (to_pool v) i (Some t);
                    new_view_loop w types (v\<lparr>view_pools := vp, pool := Some driver, to_pool := tp\<rparr>) js }) }"

definition new_view :: "('h, 'u) World \<Rightarrow> u64 list \<Rightarrow> (('h, 'u) World \<times> View) option" where
  "new_view w types =
     do { let type_count = length types;
          let v = View_default\<lparr>view_pool_count := type_count\<rparr>;
          let w1 = w\<lparr>iteration_depth := iteration_depth w + 1\<rparr>;
          r \<leftarrow> new_view_loop w1 types v [0..<type_count];
          (case r of Inl nv \<Rightarrow> Some (w1, nv)
           | Inr v1 \<Rightarrow>
               do { driver_count \<leftarrow> (case pool v1 of None \<Rightarrow> Some 0
                                     | Some d \<Rightarrow> do { dp \<leftarrow> follow w1 d; Some (count dp) });
                    if pool v1 \<noteq> None \<and> driver_count \<noteq> 0 then
                      do { d \<leftarrow> pool v1;
                           dp \<leftarrow> follow w1 d;
                           e \<leftarrow> load (dense dp) (driver_count - 1);
                           let v2 = v1\<lparr>idx := driver_count - 1, entity := e\<rparr>;
                           c \<leftarrow> contains w1 v2 e;
                           v3 \<leftarrow> (if \<not> c then View_next w1 v2 else Some v2);
                           Some (w1, v3) }
                    else Some (w1, v1\<lparr>idx := 0, entity := null_handle\<rparr>) }) }"

section \<open>Client programs\<close>

text \<open>
  What a client can do to a World, one call at a time. Handles, views and references are
  values the client holds, so a call names them; a call whose \<open>assert\<close> fails or that
  reads outside a block has no result. \<open>Write_ref\<close> is an assignment through a reference
  \<open>T&\<close> that \<open>add\<close>, \<open>get\<close> or a view has returned. \<open>View::next\<close>, \<open>View::get\<close>, \<open>count\<close> and
  \<open>at\<close> do not change the World.
\<close>

datatype 'h op =
    New_entity
  | Destroy Entity_Handle
  | Has Entity_Handle u64 nat
  | Add Entity_Handle u64 "u8 list"
  | Get Entity_Handle u64 nat
  | Remove Entity_Handle u64 nat
  | Set_create_func u64 nat "'h option"
  | Set_destroy_func u64 nat "'h option"
  | Collect_garbage
  | New_view "u64 list"
  | Valid View
  | Write_ref reference "u8 list"

fun World_step :: "('h, 'u) hooks \<Rightarrow> ('h, 'u) World \<Rightarrow> 'h op \<Rightarrow> ('h, 'u) World option" where
  "World_step run w New_entity = map_option fst (new_entity w)"
| "World_step run w (Destroy h) = Entity_destroy run w h"
| "World_step run w (Has h tid el_size) = map_option fst (Entity_has w h tid el_size)"
| "World_step run w (Add h tid c) = map_option fst (Entity_add run w h tid c)"
| "World_step run w (Get h tid el_size) = map_option fst (Entity_get w h tid el_size)"
| "World_step run w (Remove h tid el_size) = Entity_remove run w h tid el_size"
| "World_step run w (Set_create_func tid el_size f) = set_create_func w tid el_size f"
| "World_step run w (Set_destroy_func tid el_size f) = set_destroy_func w tid el_size f"
| "World_step run w Collect_garbage = collect_garbage w"
| "World_step run w (New_view types) = map_option fst (new_view w types)"
| "World_step run w (Valid v) = Some (fst (View_valid w v))"
| "World_step run w (Write_ref r c) = write_ref w r c"

fun run_ops :: "('h, 'u) hooks \<Rightarrow> ('h, 'u) World \<Rightarrow> 'h op list \<Rightarrow> ('h, 'u) World option" where
  "run_ops run w [] = Some w"
| "run_ops run w (x # xs) = do { w1 \<leftarrow> World_step run w x; run_ops run w1 xs }"

section \<open>Scenarios\<close>

text \<open>\<open>n\<close> calls of \<open>new_entity\<close>, with the handles they return, in order.\<close>

fun create_entities :: "nat \<Rightarrow> ('h, 'u) World \<Rightarrow> (('h, 'u) World \<times> Entity_Handle list) option" where
  "create_entities 0 w = Some (w, [])"
| "create_entities (Suc n) w =
     do { (w1, e) \<leftarrow> new_entity w; (w2, es) \<leftarrow> create_entities n w1; Some (w2, e # es) }"

text \<open>A client that registers no hook.\<close>

definition no_hooks :: "(unit, unit) hooks" where
  "no_hooks f w e = None"

text \<open>The World after ten calls of \<open>new_entity\<close> on a fresh World.\<close>

definition ten_entities :: "(unit, unit) World" where
  "ten_entities =
     \<lparr> entities = Array 1 [Some 0, Some 1, Some 2, Some 3, Some 4, Some 5, Some 6, Some 7,
                            Some 8, Some 9, None, None, None, None, None, None],
       entity_capacity = 16, entity_count = 10, alive_count = 10, avail_id = - 1,
       pools = nullptr, pool_count = 0, pool_capacity = 0, delete_buffer = [],
       iteration_depth = 0, uptr = (), heap_next = 2, heap_freed = [0] \<rparr>"

text \<open>\<open>destroy()\<close> on each handle of a list, in order.\<close>

fun destroy_each :: "('h, 'u) hooks \<Rightarrow> ('h, 'u) World \<Rightarrow> Entity_Handle list \<Rightarrow> ('h, 'u) World option" where
  "destroy_each run w [] = Some w"
| "destroy_each run w (h # hs) =
     do { w1 \<leftarrow> Entity_destroy run w h; destroy_each run w1 hs }"

text \<open>The handle of the same slot, one version later.\<close>

definition recycled :: "Entity_Handle \<Rightarrow> Entity_Handle" where
  "recycled h = make_handle (get_entity_id h) (get_entity_version h + 1)"

text \<open>The identity table and its bookkeeping are the same in two Worlds.\<close>

definition same_table :: "('h, 'u) World \<Rightarrow> ('h, 'u) World \<Rightarrow> bool" where
  "same_table w w' \<longleftrightarrow>
     entities w' = entities w \<and> entity_capacity w' = entity_capacity w \<and>
     entity_count w' = entity_count w \<and> avail_id w' = avail_id w \<and>
     alive_count w' = alive_count w"

text \<open>The addresses of the blocks in a list of deferred-free entries.\<close>

definition entry_address :: "'h Deletion_Entry \<Rightarrow> nat option" where
  "entry_address x =
     (case x of U8 p \<Rightarrow> address p | U64 p \<Rightarrow> address p | I64 p \<Rightarrow> address p
      | COMPONENT_POOL p \<Rightarrow> address p | ENTITY_HANDLE p \<Rightarrow> address p)"

definition entry_addresses :: "'h Deletion_Entry list \<Rightarrow> nat list" where
  "entry_addresses xs = List.map_filter entry_address xs"

text \<open>Reading the value of a component: \<open>e.get<T>()\<close> and the bytes behind the reference.\<close>

definition component_value :: "('h, 'u) World \<Rightarrow> Entity_Handle \<Rightarrow> u64 \<Rightarrow> nat \<Rightarrow> u8 option list option" where
  "component_value w h tid el_size =
     do { (w1, r) \<leftarrow> Entity_get w h tid el_size; deref w1 r el_size }"

text \<open>\<open>add<T>\<close> on each entity of a list, with a value depending on the entity; \<open>remove<T>\<close> on each.\<close>

fun add_each :: "('h, 'u) hooks \<Rightarrow> ('h, 'u) World \<Rightarrow> Entity_Handle list \<Rightarrow> u64 \<Rightarrow> (Entity_Handle \<Rightarrow> u8 list) \<Rightarrow> ('h, 'u) World option" where
  "add_each run w [] tid val = Some w"
| "add_each run w (h # hs) tid val =
     do { (w1, r) \<leftarrow> Entity_add run w h tid (val h); add_each run w1 hs tid val }"

fun remove_each :: "('h, 'u) hooks \<Rightarrow> ('h, 'u) World \<Rightarrow> Entity_Handle list \<Rightarrow> u64 \<Rightarrow> nat \<Rightarrow> ('h, 'u) World option" where
  "remove_each run w [] tid el_size = Some w"
| "remove_each run w (h # hs) tid el_size =
     do { w1 \<leftarrow> Entity_remove run w h tid el_size; remove_each run w1 hs tid el_size }"

text \<open>
  Seventeen entities, each with a two-byte component of type id 7 (its slot and 255),
  of which the first eight then lose the component: nine remain in a pool of capacity 32.
\<close>

definition thinned :: "(unit, unit) World option" where
  "thinned =
     do { (w, hs) \<leftarrow> create_entities 17 (World_default ());
          w1 \<leftarrow> add_each no_hooks w hs 7 (\<lambda>h. [ucast h, 255]);
          remove_each no_hooks w1 (take 8 hs) 7 2 }"

text \<open>Eight entities fill the first identity table; then a view is opened.\<close>

definition full_table_in_view :: "(unit, unit) World option" where
  "full_table_in_view =
     do { (w, hs) \<leftarrow> create_entities 8 (World_default ());
          (w1, v) \<leftarrow> new_view w [7];
          Some w1 }"

text \<open>\<open>has<T>()\<close> on one entity for each type of a list, all of the same size.\<close>

fun has_each :: "('h, 'u) World \<Rightarrow> Entity_Handle \<Rightarrow> u64 list \<Rightarrow> nat \<Rightarrow> ('h, 'u) World option" where
  "has_each w h [] el_size = Some w"
| "has_each w h (t # ts) el_size =
     do { (w1, b) \<leftarrow> Entity_has w h t el_size; has_each w1 h ts el_size }"

text \<open>
  Nine entities, the first eight with a two-byte component of type id 7 (its slot and
  255), so that the pool is full. A view \<open>a\<close> over that type is opened and stands on its
  first entity; a view \<open>b\<close> over a type never seen is opened and is empty. Inside the loop
  of \<open>a\<close> the client keeps the reference \<open>r\<close> that \<open>a.get<T>()\<close> returns, adds the
  component to the ninth entity, which moves the three arrays of the pool, and asks
  \<open>has<T>()\<close> for eight types never seen, which moves the pool array.
\<close>

definition two_views :: "((unit, unit) World \<times> View \<times> View \<times> reference) option" where
  "two_views =
     do { (w, hs) \<leftarrow> create_entities 9 (World_default ());
          w1 \<leftarrow> add_each no_hooks w (take 8 hs) 7 (\<lambda>h. [ucast h, 255]);
          (w2, a) \<leftarrow> new_view w1 [7];
          (w3, b) \<leftarrow> new_view w2 [9];
          r \<leftarrow> View_get w3 a 7;
          (w4, r1) \<leftarrow> Entity_add no_hooks w3 8 7 [8, 255];
          w5 \<leftarrow> has_each w4 0 [10, 11, 12, 13, 14, 15, 16, 17] 1;
          Some (w5, a, b, r) }"



section \<open>Invariants\<close>

text \<open>The block of a pointer with other cells in it.\<close>

fun with_cells :: "'c array \<Rightarrow> 'c list \<Rightarrow> 'c array" where
  "with_cells nullptr cs = nullptr"
| "with_cells (Array a xs) cs = Array a cs"

text \<open>The slot of a handle, as an index.\<close>

definition slot :: "Entity_Handle \<Rightarrow> nat" where
  "slot e = unat (get_entity_id e)"

text \<open>The packed entries \<open>dense[0..n)\<close> of a pool.\<close>

definition dense_list :: "'h Component_Pool \<Rightarrow> Entity_Handle option list" where
  "dense_list p = take (dense_count p) (cells (dense p))"

text \<open>
  The sparse set of a pool: the three blocks have the lengths the capacities say, the
  counts agree and fit, a payload block exists once there is capacity, every packed entry \<open>dense[i]\<close> is a handle whose sparse entry is
  \<open>i\<close>, and every sparse entry is \<open>-1\<close> or the index of a packed entry of that slot.
\<close>

definition sparse_set :: "'h Component_Pool \<Rightarrow> bool" where
  "sparse_set p \<longleftrightarrow>
     length (cells (sparse p)) = sparse_capacity p
     \<and> length (cells (dense p)) = dense_capacity p
     \<and> length (cells (data p)) = capacity p * element_size p
     \<and> dense_count p \<le> dense_capacity p \<and> count p = dense_count p \<and> count p \<le> capacity p
     \<and> (capacity p = 0 \<or> data p \<noteq> nullptr)
     \<and> (\<forall>i \<in> set [0..<dense_count p].
           case cells (dense p) ! i of None \<Rightarrow> False
           | Some e \<Rightarrow> slot e < sparse_capacity p \<and> cells (sparse p) ! slot e = Some (int i))
     \<and> (\<forall>s \<in> set [0..<sparse_capacity p].
           case cells (sparse p) ! s of None \<Rightarrow> False
           | Some j \<Rightarrow> j = - 1 \<or> (0 \<le> j \<and> nat j < dense_count p
                         \<and> (case cells (dense p) ! nat j of None \<Rightarrow> False | Some e \<Rightarrow> slot e = s)))"

text \<open>The bytes of the component of an entity in a pool: \<open>get(e)\<close>, then \<open>element_size\<close> bytes.\<close>

definition pool_value :: "'h Component_Pool \<Rightarrow> Entity_Handle \<Rightarrow> u8 option list option" where
  "pool_value p e =
     do { n \<leftarrow> Component_Pool_get p e; read_bytes (data p) n (element_size p) }"

text \<open>Two Worlds that differ in the allocator and the deferred-free buffer at most.\<close>

definition heap_only :: "('h, 'u) World \<Rightarrow> ('h, 'u) World \<Rightarrow> bool" where
  "heap_only w w' \<longleftrightarrow>
     entities w' = entities w \<and> entity_capacity w' = entity_capacity w
     \<and> entity_count w' = entity_count w \<and> alive_count w' = alive_count w
     \<and> avail_id w' = avail_id w \<and> pools w' = pools w \<and> pool_count w' = pool_count w
     \<and> pool_capacity w' = pool_capacity w \<and> iteration_depth w' = iteration_depth w
     \<and> uptr w' = uptr w"

text \<open>Three entities, each with a two-byte component of type id 7: its slot and 255.\<close>

definition three_components :: "(unit, unit) World option" where
  "three_components =
     do { (w, hs) \<leftarrow> create_entities 3 (World_default ());
          add_each no_hooks w hs 7 (\<lambda>h. [ucast h, 255]) }"

text \<open>
  The identity table: the block has the length the capacity says, the entries in use fit
  and are initialised.
\<close>

definition table_inv :: "('h, 'u) World \<Rightarrow> bool" where
  "table_inv w \<longleftrightarrow>
     length (cells (entities w)) = entity_capacity w \<and> entity_count w \<le> entity_capacity w
     \<and> (\<forall>s \<in> set [0..<entity_count w]. cells (entities w) ! s \<noteq> None)"

text \<open>
  The pool array: the block has the length the capacity says, every pool in use is a
  sparse set whose packed entries are live handles, and the pools not yet in use are as
  \<open>new Component_Pool[n]\<close> made them.
\<close>

definition pools_inv :: "('h, 'u) World \<Rightarrow> bool" where
  "pools_inv w \<longleftrightarrow>
     length (cells (pools w)) = pool_capacity w \<and> pool_count w \<le> pool_capacity w
     \<and> (\<forall>k \<in> set [0..<pool_count w].
           sparse_set (cells (pools w) ! k)
           \<and> (\<forall>x \<in> set (dense_list (cells (pools w) ! k)).
                 case x of None \<Rightarrow> False | Some e \<Rightarrow> Entity_valid w e = Some True))
     \<and> (\<forall>k \<in> set [pool_count w..<pool_capacity w]. cells (pools w) ! k = Component_Pool_default)"

definition world_inv :: "('h, 'u) World \<Rightarrow> bool" where
  "world_inv w \<longleftrightarrow> table_inv w \<and> pools_inv w"

text \<open>Two Worlds with the same identity table and the same pools.\<close>

definition same_core :: "('h, 'u) World \<Rightarrow> ('h, 'u) World \<Rightarrow> bool" where
  "same_core w w' \<longleftrightarrow>
     same_table w w' \<and> pools w' = pools w \<and> pool_count w' = pool_count w
     \<and> pool_capacity w' = pool_capacity w"

section \<open>Lemmas\<close>

section \<open>Handles\<close>

lemma get_entity_id_make_handle: "get_entity_id (make_handle i v) = i"
  unfolding get_entity_id_def make_handle_def
  by (rule bit_word_eqI) (auto simp: bit_simps)

lemma get_entity_version_make_handle: "get_entity_version (make_handle i v) = v"
  unfolding get_entity_version_def make_handle_def
  by (rule bit_word_eqI) (auto simp: bit_simps dest: bit_imp_le_length)

lemma make_handle_split: "make_handle (get_entity_id h) (get_entity_version h) = h"
  unfolding get_entity_version_def get_entity_id_def make_handle_def
  by (rule bit_word_eqI) (auto simp: bit_simps)

section \<open>What the pool operations leave alone\<close>

lemma fire_frame:
  assumes "fire run f w e = Some w'"
  shows "entities w' = entities w" "entity_capacity w' = entity_capacity w"
    "entity_count w' = entity_count w" "alive_count w' = alive_count w"
    "avail_id w' = avail_id w" "pools w' = pools w" "pool_count w' = pool_count w"
    "pool_capacity w' = pool_capacity w" "delete_buffer w' = delete_buffer w"
    "iteration_depth w' = iteration_depth w" "heap_next w' = heap_next w"
    "heap_freed w' = heap_freed w"
  using assms by (auto simp: fire_def split: option.splits bind_splits)

lemma Component_Pool_remove_table:
  "Component_Pool_remove run w i e = Some w' \<Longrightarrow> same_table w w'"
  by (auto simp: Component_Pool_remove_def same_table_def split: bind_splits dest: fire_frame)

lemma destroy_pools_table:
  "destroy_pools run w h js = Some w' \<Longrightarrow> same_table w w'"
proof (induction js arbitrary: w)
  case Nil
  then show ?case by (simp add: same_table_def)
next
  case (Cons i js)
  then show ?case
    by (fastforce simp: same_table_def split: bind_splits if_splits dest: Component_Pool_remove_table)
qed

lemma commit_fold:
  "fold (\<lambda>entry v. case entry of
                U8 p \<Rightarrow> delete_array v p
              | U64 p \<Rightarrow> delete_array v p
              | I64 p \<Rightarrow> delete_array v p
              | COMPONENT_POOL p \<Rightarrow> delete_array v p
              | ENTITY_HANDLE p \<Rightarrow> delete_array v p) xs w
   = w\<lparr>heap_freed := rev (entry_addresses xs) @ heap_freed w\<rparr>"
proof (induction xs arbitrary: w)
  case Nil
  show ?case by (simp add: entry_addresses_def)
next
  case (Cons x xs)
  show ?case
    by (cases x)
      (simp_all add: Cons.IH delete_array_def entry_addresses_def entry_address_def
        map_filter_simps split: array.splits)
qed

lemma commit_deletions_eq:
  "commit_deletions w =
     w\<lparr>heap_freed := rev (entry_addresses (delete_buffer w)) @ heap_freed w, delete_buffer := []\<rparr>"
  unfolding commit_deletions_def commit_fold by simp

section \<open>Arrays\<close>

lemma cells_with_cells: "p \<noteq> nullptr \<Longrightarrow> cells (with_cells p cs) = cs"
  by (cases p) auto

lemma with_cells_same: "with_cells p (cells p) = p"
  by (cases p) auto

lemma with_cells_twice: "with_cells (with_cells p xs) ys = with_cells p ys"
  by (cases p) auto

lemma with_cells_null: "with_cells p cs = nullptr \<longleftrightarrow> p = nullptr"
  by (cases p) auto

lemma length_pos_not_null: "i < length (cells p) \<Longrightarrow> p \<noteq> nullptr"
  by (cases p) auto

lemma index_cells: "index p i = Some c \<longleftrightarrow> i < length (cells p) \<and> cells p ! i = c"
  by (cases p) auto

lemma index_None: "index p i = None \<longleftrightarrow> length (cells p) \<le> i"
  by (cases p) auto

lemma load_cells: "load p i = Some v \<longleftrightarrow> i < length (cells p) \<and> cells p ! i = Some v"
  by (cases p) (auto simp: load_def)

lemma store_cells:
  "store p i c = Some q \<longleftrightarrow> i < length (cells p) \<and> q = with_cells p ((cells p)[i := c])"
  by (cases p) auto

lemma store_at_cells:
  "store_at p j c = Some q \<longleftrightarrow> 0 \<le> j \<and> nat j < length (cells p) \<and> q = with_cells p ((cells p)[nat j := c])"
  by (auto simp: store_at_def store_cells)

lemma read_bytes_cells:
  "read_bytes p off n = Some bs \<longleftrightarrow> p \<noteq> nullptr \<and> off + n \<le> length (cells p) \<and> bs = take n (drop off (cells p))"
  by (cases p) auto

lemma write_bytes_cells:
  "write_bytes p off bs = Some q \<longleftrightarrow>
     p \<noteq> nullptr \<and> off + length bs \<le> length (cells p)
     \<and> q = with_cells p (take off (cells p) @ bs @ drop (off + length bs) (cells p))"
  by (cases p) auto

lemma mem_copy_append:
  "mem_copy dst src (xs @ ys) = Option.bind (mem_copy dst src xs) (\<lambda>d. mem_copy d src ys)"
  by (induction xs arbitrary: dst) (auto split: bind_splits)

lemma cells_null: "cells p = [] \<longleftrightarrow> p = nullptr \<or> (\<exists>a. p = Array a [])"
  by (cases p) auto

lemma index_eq: "index p i = (if i < length (cells p) then Some (cells p ! i) else None)"
  by (cases p) auto

lemma store_eq:
  "store p i c = (if i < length (cells p) then Some (with_cells p ((cells p)[i := c])) else None)"
  by (cases p) auto

lemma length_cells_with_cells:
  "length (cells (with_cells p xs)) = (if p = nullptr then 0 else length xs)"
  by (cases p) auto

lemma mem_copy_eq:
  "mem_copy dst src [0..<n] =
     (if n \<le> length (cells src) \<and> n \<le> length (cells dst)
      then Some (with_cells dst (take n (cells src) @ drop n (cells dst))) else None)"
proof (induction n)
  case 0
  show ?case by (simp add: with_cells_same)
next
  case (Suc n)
  have step: "(take n xs @ drop n ys)[n := xs ! n] = take (Suc n) xs @ drop (Suc n) ys"
    if "n < length xs" "n < length ys" for xs ys :: "'a list"
  proof -
    from that have "drop n ys = ys ! n # drop (Suc n) ys" by (simp add: Cons_nth_drop_Suc)
    with that show ?thesis by (simp add: take_Suc_conv_app_nth list_update_append)
  qed
  show ?case
  proof (cases "Suc n \<le> length (cells src) \<and> Suc n \<le> length (cells dst)")
    case True
    then have "dst \<noteq> nullptr" by (auto dest: length_pos_not_null)
    with True show ?thesis
      by (simp add: mem_copy_append Suc.IH index_eq store_eq cells_with_cells with_cells_twice step)
  next
    case False
    then show ?thesis
      by (auto simp: mem_copy_append Suc.IH index_eq store_eq length_cells_with_cells)
  qed
qed

lemma mem_copy_upt:
  "mem_copy dst src [0..<n] = Some d \<longleftrightarrow>
     n \<le> length (cells src) \<and> n \<le> length (cells dst)
     \<and> d = with_cells dst (take n (cells src) @ drop n (cells dst))"
  by (auto simp: mem_copy_eq)

lemma fill_absent_append:
  "fill_absent sp (xs @ ys) = Option.bind (fill_absent sp xs) (\<lambda>s. fill_absent s ys)"
  by (induction xs arbitrary: sp) (auto split: bind_splits)

lemma fill_absent_eq:
  "a \<le> b \<Longrightarrow> fill_absent sp [a..<b] =
     (if a < b \<longrightarrow> b \<le> length (cells sp)
      then Some (with_cells sp (take a (cells sp) @ replicate (b - a) (Some (- 1)) @ drop b (cells sp)))
      else None)"
proof (induction b)
  case 0
  then show ?case by (simp add: with_cells_same)
next
  case (Suc b)
  show ?case
  proof (cases "a = Suc b")
    case True
    then show ?thesis by (simp add: with_cells_same)
  next
    case False
    with Suc.prems have ab: "a \<le> b" by simp
    have step: "(take a xs @ replicate (b - a) c @ drop b xs)[b := c]
        = take a xs @ replicate (Suc b - a) c @ drop (Suc b) xs"
      if "b < length xs" for xs :: "'a list" and c
    proof -
      from that have "drop b xs = xs ! b # drop (Suc b) xs" by (simp add: Cons_nth_drop_Suc)
      with that ab show ?thesis
        by (simp add: list_update_append Suc_diff_le replicate_append_same)
    qed
    show ?thesis
    proof (cases "Suc b \<le> length (cells sp)")
      case True
      then have "sp \<noteq> nullptr" by (auto dest: length_pos_not_null)
      with True ab show ?thesis
        by (simp add: fill_absent_append Suc.IH [OF ab] store_eq cells_with_cells with_cells_twice step)
    next
      case False
      with ab show ?thesis
        by (auto simp: fill_absent_append Suc.IH [OF ab] store_eq length_cells_with_cells)
    qed
  qed
qed

section \<open>The sparse set under swap-and-pop\<close>

lemma case_option_iff: "(case x of None \<Rightarrow> False | Some e \<Rightarrow> P e) \<longleftrightarrow> (\<exists>e. x = Some e \<and> P e)"
  by (cases x) auto

lemma sparse_set_iff:
  "sparse_set p \<longleftrightarrow>
     length (cells (sparse p)) = sparse_capacity p
     \<and> length (cells (dense p)) = dense_capacity p
     \<and> length (cells (data p)) = capacity p * element_size p
     \<and> dense_count p \<le> dense_capacity p \<and> count p = dense_count p \<and> count p \<le> capacity p
     \<and> (capacity p = 0 \<or> data p \<noteq> nullptr)
     \<and> (\<forall>i < dense_count p. \<exists>e. cells (dense p) ! i = Some e
            \<and> slot e < sparse_capacity p \<and> cells (sparse p) ! slot e = Some (int i))
     \<and> (\<forall>s < sparse_capacity p. \<exists>j. cells (sparse p) ! s = Some j
            \<and> (j = - 1 \<or> (0 \<le> j \<and> nat j < dense_count p
                  \<and> (\<exists>e. cells (dense p) ! nat j = Some e \<and> slot e = s))))"
  unfolding sparse_set_def case_option_iff by (simp add: Ball_def)

lemma in_dense_list:
  "Some e \<in> set (dense_list p) \<longleftrightarrow>
     (\<exists>i < min (dense_count p) (length (cells (dense p))). cells (dense p) ! i = Some e)"
  by (auto simp: dense_list_def in_set_conv_nth)

lemma member_index:
  assumes "sparse_set p" "Some e \<in> set (dense_list p)"
  shows "slot e < sparse_capacity p \<and> nat (the (cells (sparse p) ! slot e)) < dense_count p
       \<and> cells (sparse p) ! slot e = Some (int (nat (the (cells (sparse p) ! slot e))))
       \<and> cells (dense p) ! nat (the (cells (sparse p) ! slot e)) = Some e"
  using assms unfolding sparse_set_iff in_dense_list
  by (metis min.strict_boundedE nat_int option.sel option.inject)

lemma member_has:
  assumes "sparse_set p" "Some e \<in> set (dense_list p)"
  shows "Component_Pool_has p e = Some True"
  using member_index [OF assms] assms(1)
  by (auto simp: Component_Pool_has_def Let_def load_cells sparse_set_iff slot_def split: bind_splits)

lemma has_member:
  assumes "sparse_set p" "Component_Pool_has p e = Some True"
  shows "\<exists>e'. Some e' \<in> set (dense_list p) \<and> slot e' = slot e"
proof -
  from assms(2) obtain j where s: "slot e < sparse_capacity p" and j: "cells (sparse p) ! slot e = Some j" "j \<noteq> - 1"
    by (auto simp: Component_Pool_has_def Let_def load_cells slot_def split: bind_splits if_splits)
  with assms(1) obtain e' where "nat j < dense_count p" "cells (dense p) ! nat j = Some e'" "slot e' = slot e"
    unfolding sparse_set_iff by (metis option.inject)
  moreover from assms(1) have "dense_count p \<le> length (cells (dense p))" by (simp add: sparse_set_iff)
  ultimately show ?thesis unfolding in_dense_list by (metis min.absorb1)
qed


lemma mult_region_le: "i < j \<Longrightarrow> i * es + es \<le> j * (es :: nat)"
proof -
  assume "i < j"
  then have "Suc i * es \<le> j * es" by (intro mult_le_mono1) simp
  then show ?thesis by simp
qed

lemma patch_read_same:
  "off + length m \<le> length bs \<Longrightarrow>
     take (length m) (drop off (take off bs @ m @ drop (off + length m) bs)) = m"
  by simp

lemma patch_read_other:
  assumes "off + length m \<le> length bs" "a + n \<le> off \<or> off + length m \<le> a"
  shows "take n (drop a (take off bs @ m @ drop (off + length m) bs)) = take n (drop a bs)"
  using assms(2)
proof
  assume before: "a + n \<le> off"
  then have "n \<le> off - a" "a \<le> off" by simp_all
  with assms(1) show ?thesis
    by (simp add: drop_take min.absorb1 min.absorb2)
next
  assume after: "off + length m \<le> a"
  with assms(1) show ?thesis by (simp add: min_def)
qed

lemma swap_and_pop_sparse_set:
  assumes wf: "sparse_set p" and mem: "Some e \<in> set (dense_list p)"
  shows "\<exists>p'. swap_and_pop p e = Some p' \<and> sparse_set p'
          \<and> set (dense_list p') = set (dense_list p) - {Some e}
          \<and> Component_Pool_has p' e = Some False
          \<and> (\<forall>e'. Some e' \<in> set (dense_list p) \<and> e' \<noteq> e \<longrightarrow>
                pool_value p e' \<noteq> None \<and> pool_value p' e' = pool_value p e')
          \<and> type_id p' = type_id p \<and> element_size p' = element_size p
          \<and> on_create p' = on_create p \<and> on_destroy p' = on_destroy p
          \<and> capacity p' = capacity p"
proof -
  define n dn sp bs es where "n = dense_count p" and "dn = cells (dense p)"
    and "sp = cells (sparse p)" and "bs = cells (data p)" and "es = element_size p"
  define j where "j = nat (the (sp ! slot e))"
  note defs = n_def dn_def sp_def bs_def es_def
  from wf have len: "length sp = sparse_capacity p" "length dn = dense_capacity p"
    "length bs = capacity p * es" "n \<le> length dn" "count p = n" "n \<le> capacity p"
    and data: "capacity p = 0 \<or> data p \<noteq> nullptr"
    and fwd: "\<And>i. i < n \<Longrightarrow> \<exists>x. dn ! i = Some x \<and> slot x < length sp \<and> sp ! slot x = Some (int i)"
    and bwd: "\<And>s. s < length sp \<Longrightarrow> \<exists>k. sp ! s = Some k
            \<and> (k = - 1 \<or> (0 \<le> k \<and> nat k < n \<and> (\<exists>x. dn ! nat k = Some x \<and> slot x = s)))"
    unfolding sparse_set_iff defs by auto
  from member_index [OF wf mem] have e: "slot e < length sp" "j < n" "sp ! slot e = Some (int j)" "dn ! j = Some e"
    unfolding j_def defs using len(1) by (auto simp: defs)
  from e(2) have npos: "0 < n" by simp
  then have decn: "dec n = n - 1" by (simp add: dec_def)
  from fwd [of "n - 1"] npos obtain o' where
    o: "dn ! (n - 1) = Some o'" "slot o' < length sp" "sp ! slot o' = Some (int (n - 1))"
    by auto
  have slots: "slot x = slot y \<Longrightarrow> a = b"
    if "a < n" "b < n" "dn ! a = Some x" "dn ! b = Some y" for a b x y
    using fwd [OF that(1)] fwd [OF that(2)] that(3,4) by auto
  from data len(6) npos have nonnull: "data p \<noteq> nullptr" by auto
  have region: "(n - 1) * es + es \<le> length bs" "j * es + es \<le> length bs"
  proof -
    have "n * es \<le> capacity p * es" using len(6) by (rule mult_le_mono1)
    then have A: "n * es \<le> length bs" by (simp only: len(3))
    have B: "(n - 1) * es + es = n * es" using npos by (cases n) auto
    have C: "j * es + es \<le> n * es" using e(2) by (rule mult_region_le)
    from A B C show "(n - 1) * es + es \<le> length bs" "j * es + es \<le> length bs"
      by linarith+
  qed
  define moved where "moved = take es (drop ((n - 1) * es) bs)"
  have lmoved: "length moved = es" using region(1) by (simp add: moved_def)
  define sp' where "sp' = sp[slot o' := Some (int j), slot e := Some (- 1)]"
  define dn' where "dn' = dn[j := Some o']"
  define bs' where "bs' = take (j * es) bs @ moved @ drop (j * es + es) bs"
  define p' where "p' = p\<lparr>sparse := with_cells (sparse p) sp', dense := with_cells (dense p) dn',
      data := with_cells (data p) bs', dense_count := n - 1, count := n - 1\<rparr>"
  have run: "swap_and_pop p e = Some p'"
    using e o npos len region nonnull lmoved
    by (simp add: swap_and_pop_def load_cells store_eq store_at_def read_bytes_cells
        write_bytes_cells decn slot_def [symmetric] defs [symmetric] length_cells_with_cells
        length_pos_not_null cells_with_cells with_cells_twice p'_def sp'_def dn'_def bs'_def moved_def
        Option.bind_eq_Some_conv)
  have nn: "sparse p \<noteq> nullptr" "dense p \<noteq> nullptr"
    using e(1) e(2) len(4) by (auto simp: defs dest: length_pos_not_null)
  have cells': "cells (sparse p') = sp'" "cells (dense p') = dn'" "cells (data p') = bs'"
    "dense_count p' = n - 1" "count p' = n - 1"
    using nn nonnull by (simp_all add: p'_def cells_with_cells)
  have fields': "element_size p' = es" "data p' \<noteq> nullptr" "sparse_capacity p' = sparse_capacity p"
    using nonnull by (simp_all add: p'_def es_def with_cells_null)
  have lens': "length sp' = length sp" "length dn' = length dn" "length bs' = length bs"
    using region(2) lmoved by (simp_all add: sp'_def dn'_def bs'_def)
  have fwd': "\<exists>x. dn' ! i = Some x \<and> slot x < length sp' \<and> sp' ! slot x = Some (int i)"
    if i: "i < n - 1" for i
  proof (cases "i = j")
    case True
    with i have "slot o' \<noteq> slot e"
      using slots [of "n - 1" j o' e] o(1) e(2,4) npos by auto
    with True i o e len(4) show ?thesis
      by (auto simp: dn'_def sp'_def)
  next
    case False
    from i have lt: "i < n" "i \<noteq> n - 1" by simp_all
    from fwd [OF lt(1)] obtain x where x: "dn ! i = Some x" "slot x < length sp" "sp ! slot x = Some (int i)"
      by auto
    have "slot x \<noteq> slot e" using slots [of i j x e] x(1) e(2,4) lt False by auto
    moreover have "slot x \<noteq> slot o'" using slots [of i "n - 1" x o'] x(1) o(1) lt npos by auto
    ultimately show ?thesis using x False by (auto simp: dn'_def sp'_def)
  qed
  have bwd': "\<exists>k. sp' ! s = Some k
        \<and> (k = - 1 \<or> (0 \<le> k \<and> nat k < n - 1 \<and> (\<exists>x. dn' ! nat k = Some x \<and> slot x = s)))"
    if s: "s < length sp'" for s
  proof -
    consider (e) "s = slot e" | (o) "s \<noteq> slot e" "s = slot o'" | (other) "s \<noteq> slot e" "s \<noteq> slot o'"
      by blast
    then show ?thesis
    proof cases
      case e
      with s show ?thesis by (simp add: sp'_def)
    next
      case o
      then have "j \<noteq> n - 1" using e(4) \<open>dn ! (n - 1) = Some o'\<close> by auto
      with e(2) have "j < n - 1" by simp
      with o s len(4) e(2) show ?thesis by (auto simp: sp'_def dn'_def)
    next
      case other
      from bwd [of s] s lens' obtain k where k: "sp ! s = Some k"
        "k = - 1 \<or> (0 \<le> k \<and> nat k < n \<and> (\<exists>x. dn ! nat k = Some x \<and> slot x = s))"
        by auto
      show ?thesis
      proof (cases "k = - 1")
        case True
        with k other show ?thesis by (simp add: sp'_def)
      next
        case False
        with k obtain x where x: "0 \<le> k" "nat k < n" "dn ! nat k = Some x" "slot x = s" by auto
        have "nat k \<noteq> j" using x e(4) other by auto
        moreover have "nat k \<noteq> n - 1" using x o(1) other by auto
        ultimately show ?thesis using k x other by (auto simp: sp'_def dn'_def)
      qed
    qed
  qed
  have wf': "sparse_set p'"
    unfolding sparse_set_iff cells'
    using len lens' fwd' bwd' nonnull
    by (auto simp: p'_def defs with_cells_null)
  have mem': "set (dense_list p') = set (dense_list p) - {Some e}"
  proof -
    have dl: "dense_list p = take n dn" "dense_list p' = take (n - 1) dn'"
      by (simp_all add: dense_list_def cells' defs)
    have "Some x \<in> set (take (n - 1) dn') \<longleftrightarrow> Some x \<in> set (take n dn) \<and> x \<noteq> e" for x
    proof
      assume "Some x \<in> set (take (n - 1) dn')"
      then obtain i where i: "i < n - 1" "dn' ! i = Some x"
        by (auto simp: in_set_conv_nth)
      from i(1) have lt: "i < n" by simp
      show "Some x \<in> set (take n dn) \<and> x \<noteq> e"
      proof (cases "i = j")
        case True
        with i len(4) e(2) have "x = o'" by (simp add: dn'_def)
        moreover have "o' \<noteq> e" using slots [of "n - 1" j o' e] o(1) e(2,4) i True npos by auto
        moreover have "Some o' \<in> set (take n dn)"
          using o(1) npos len(4) by (auto simp: in_set_conv_nth intro!: exI [of _ "n - 1"])
        ultimately show ?thesis by simp
      next
        case False
        with i have x: "dn ! i = Some x" by (simp add: dn'_def)
        then have "x \<noteq> e" using slots [of i j x e] e(2,4) lt False by auto
        moreover have "Some x \<in> set (take n dn)"
          using x lt len(4) by (auto simp: in_set_conv_nth intro!: exI [of _ i])
        ultimately show ?thesis by simp
      qed
    next
      assume "Some x \<in> set (take n dn) \<and> x \<noteq> e"
      then obtain i where i: "i < n" "dn ! i = Some x" and ne: "x \<noteq> e"
        by (auto simp: in_set_conv_nth)
      from ne i e(4) have ij: "i \<noteq> j" by auto
      show "Some x \<in> set (take (n - 1) dn')"
      proof (cases "i = n - 1")
        case True
        with i o(1) have "x = o'" by simp
        moreover from True ij e(2) have "j < n - 1" by simp
        ultimately show ?thesis
          using len(4) e(2) by (auto simp: in_set_conv_nth dn'_def intro!: exI [of _ j])
      next
        case False
        with i have "i < n - 1" by simp
        with i ij len(4) show ?thesis
          by (auto simp: in_set_conv_nth dn'_def intro!: exI [of _ i])
      qed
    qed
    note some = this
    have none: "None \<notin> set (take n dn)"
    proof
      assume "None \<in> set (take n dn)"
      then obtain i where "i < n" "dn ! i = None" by (auto simp: in_set_conv_nth)
      with fwd [of i] show False by simp
    qed
    have none': "None \<notin> set (take (n - 1) dn')"
    proof
      assume "None \<in> set (take (n - 1) dn')"
      then obtain i where "i < n - 1" "dn' ! i = None" by (auto simp: in_set_conv_nth)
      with fwd' [of i] show False by simp
    qed
    show ?thesis
      unfolding dl
    proof (rule set_eqI)
      fix y
      show "y \<in> set (take (n - 1) dn') \<longleftrightarrow> y \<in> set (take n dn) - {Some e}"
      proof (cases y)
        case None
        with none none' show ?thesis by simp
      next
        case (Some x)
        with some [of x] show ?thesis by simp
      qed
    qed
  qed
  have has': "Component_Pool_has p' e = Some False"
    using e(1) len(1) nn
    by (simp add: Component_Pool_has_def Let_def load_cells cells' slot_def [symmetric] p'_def
        cells_with_cells sp'_def Option.bind_eq_Some_conv)
  have vals: "pool_value p e' \<noteq> None \<and> pool_value p' e' = pool_value p e'"
    if other: "Some e' \<in> set (dense_list p)" "e' \<noteq> e" for e'
  proof -
    from other(1) obtain i where i: "i < n" "dn ! i = Some e'"
      using len(4) by (auto simp: in_dense_list defs)
    from fwd [OF i(1)] i(2) have si: "slot e' < length sp" "sp ! slot e' = Some (int i)" by auto
    from i other(2) e(4) have ij: "i \<noteq> j" by auto
    have ri: "i * es + es \<le> length bs"
    proof -
      have "i * es + es \<le> n * es" using i(1) by (rule mult_region_le)
      moreover have "n * es \<le> capacity p * es" using len(6) by (rule mult_le_mono1)
      ultimately show ?thesis by (simp only: len(3))
    qed
    have old: "pool_value p e' = Some (take es (drop (i * es) bs))"
      using si ri nonnull
      by (simp add: pool_value_def Component_Pool_get_def sparse_idx_def load_cells get_by_idx_def
          read_bytes_cells slot_def [symmetric] defs [symmetric] Option.bind_eq_Some_conv)
    have se: "slot e' \<noteq> slot e" using slots [of i j e' e] i e(2,4) ij by auto
    show ?thesis
    proof (cases "i = n - 1")
      case True
      with i o(1) have eo: "e' = o'" by simp
      have "pool_value p' e' = Some (take es (drop (j * es) bs'))"
        using si se eo region lens' nonnull
        by (simp add: pool_value_def Component_Pool_get_def sparse_idx_def load_cells get_by_idx_def
            read_bytes_cells slot_def [symmetric] cells' fields' sp'_def
            Option.bind_eq_Some_conv)
      also have "take es (drop (j * es) bs') = moved"
        unfolding bs'_def using patch_read_same [of "j * es" moved bs] region(2) lmoved by simp
      finally show ?thesis using old True by (simp add: moved_def)
    next
      case False
      have so: "slot e' \<noteq> slot o'" using slots [of i "n - 1" e' o'] i o(1) False npos by auto
      have "pool_value p' e' = Some (take es (drop (i * es) bs'))"
        using si se so ri lens' nonnull
        by (simp add: pool_value_def Component_Pool_get_def sparse_idx_def load_cells get_by_idx_def
            read_bytes_cells slot_def [symmetric] cells' fields' sp'_def
            Option.bind_eq_Some_conv)
      also have "take es (drop (i * es) bs') = take es (drop (i * es) bs)"
      proof -
        have "i * es + es \<le> j * es \<or> j * es + length moved \<le> i * es"
          using ij mult_region_le [of i j es] mult_region_le [of j i es] lmoved
          by (cases "i < j") auto
        from patch_read_other [OF _ this] region(2) lmoved show ?thesis
          by (simp add: bs'_def)
      qed
      finally show ?thesis using old by simp
    qed
  qed
  show ?thesis
    using run wf' mem' has' vals by (auto simp: p'_def)
qed

section \<open>The sparse set under add\<close>

lemma heap_only_refl: "heap_only w w"
  by (simp add: heap_only_def)

lemma heap_only_trans: "heap_only w w1 \<Longrightarrow> heap_only w1 w2 \<Longrightarrow> heap_only w w2"
  by (simp add: heap_only_def)

lemma heap_only_delete_array: "heap_only w (delete_array w p)"
  by (cases p) (auto simp: delete_array_def heap_only_def)

lemma heap_only_push_deletion: "push_deletion w x = Some w' \<Longrightarrow> heap_only w w'"
  by (auto simp: push_deletion_def heap_only_def assert_def split: bind_splits if_splits)

lemma carry_over_effect:
  assumes "carry_over w (Array a (replicate m x)) old n ty = Some (c, w')"
    and "n = length (cells old)"
  shows "heap_only w w' \<and> n \<le> m \<and> c = Array a (cells old @ replicate (m - n) x)"
proof (cases "old = nullptr")
  case True
  with assms show ?thesis by (auto simp: carry_over_def heap_only_refl)
next
  case False
  with assms(1) obtain w1 where
    c: "mem_copy (Array a (replicate m x)) old [0..<n] = Some c" and
    w1: "(if iteration_depth w \<le> 0 then Some (delete_array w old) else push_deletion w (ty old)) = Some w'"
    by (auto simp: carry_over_def split: bind_splits)
  from w1 have "heap_only w w'"
    by (auto simp: heap_only_delete_array heap_only_push_deletion split: if_splits)
  with c assms(2) show ?thesis by (simp add: mem_copy_upt)
qed

lemma add_grow_data_effect:
  assumes "add_grow_data w p = Some (w', p')"
    and "length (cells (data p)) = capacity p * element_size p" "count p \<le> capacity p"
    and "capacity p = 0 \<or> data p \<noteq> nullptr"
  shows "heap_only w w'
       \<and> sparse p' = sparse p \<and> sparse_capacity p' = sparse_capacity p
       \<and> dense p' = dense p \<and> dense_count p' = dense_count p \<and> dense_capacity p' = dense_capacity p
       \<and> count p' = count p \<and> element_size p' = element_size p \<and> type_id p' = type_id p
       \<and> on_create p' = on_create p \<and> on_destroy p' = on_destroy p
       \<and> (\<exists>k. cells (data p') = cells (data p) @ replicate k None)
       \<and> length (cells (data p')) = capacity p' * element_size p
       \<and> count p < capacity p' \<and> data p' \<noteq> nullptr"
proof (cases "count p \<ge> capacity p")
  case False
  with assms show ?thesis
    by (auto simp: add_grow_data_def heap_only_refl intro: exI [of _ 0])
next
  case True
  let ?nc = "if capacity p < 8 then 8 else capacity p * 2"
  let ?wa = "w\<lparr>heap_next := heap_next w + 1\<rparr>"
  from True assms(1) obtain c where
    co: "carry_over ?wa (Array (heap_next w) (replicate (?nc * element_size p) None)) (data p)
           (capacity p * element_size p) U8 = Some (c, w')"
    and res: "p' = p\<lparr>capacity := ?nc, data := c\<rparr>"
    by (auto simp: add_grow_data_def new_array_def Let_def split: bind_splits)
  from carry_over_effect [OF co] assms(2)
  have ho: "heap_only ?wa w'" and
    c: "c = Array (heap_next w) (cells (data p) @ replicate (?nc * element_size p - capacity p * element_size p) None)"
    and le: "capacity p * element_size p \<le> ?nc * element_size p"
    by auto
  have "heap_only w ?wa" by (simp add: heap_only_def)
  from this ho have "heap_only w w'" by (rule heap_only_trans)
  moreover have "count p < ?nc" using True assms(3) by auto
  ultimately show ?thesis using res c assms(2) le
    by (auto simp del: replicate_eq_replicate)
qed

lemma add_grow_sparse_effect:
  assumes "add_grow_sparse w p eid = Some (w', p')"
    and "length (cells (sparse p)) = sparse_capacity p"
  shows "heap_only w w'
       \<and> dense p' = dense p \<and> dense_count p' = dense_count p \<and> dense_capacity p' = dense_capacity p
       \<and> data p' = data p \<and> count p' = count p \<and> capacity p' = capacity p
       \<and> element_size p' = element_size p \<and> type_id p' = type_id p
       \<and> on_create p' = on_create p \<and> on_destroy p' = on_destroy p
       \<and> cells (sparse p') = cells (sparse p) @ replicate (sparse_capacity p' - sparse_capacity p) (Some (- 1))
       \<and> length (cells (sparse p')) = sparse_capacity p'
       \<and> eid < sparse_capacity p' \<and> sparse_capacity p \<le> sparse_capacity p'"
proof (cases "eid \<ge> sparse_capacity p")
  case False
  with assms show ?thesis
    by (auto simp: add_grow_sparse_def heap_only_refl)
next
  case True
  let ?wa = "w\<lparr>heap_next := heap_next w + 1\<rparr>"
  from True assms(1) obtain c f where
    co: "carry_over ?wa (Array (heap_next w) (replicate (eid + 1) None)) (sparse p)
           (sparse_capacity p) I64 = Some (c, w')"
    and f: "fill_absent c [sparse_capacity p..<eid + 1] = Some f"
    and res: "p' = p\<lparr>sparse := f, sparse_capacity := eid + 1\<rparr>"
    by (auto simp: add_grow_sparse_def new_array_def Let_def split: bind_splits)
  from carry_over_effect [OF co] assms(2)
  have ho: "heap_only ?wa w'" and
    c: "c = Array (heap_next w) (cells (sparse p) @ replicate (eid + 1 - sparse_capacity p) None)"
    by auto
  have "heap_only w ?wa" by (simp add: heap_only_def)
  from this ho have "heap_only w w'" by (rule heap_only_trans)
  moreover have "f = Array (heap_next w) (cells (sparse p) @ replicate (eid + 1 - sparse_capacity p) (Some (- 1)))"
  proof -
    have le: "sparse_capacity p \<le> eid + 1" using True by simp
    from f [unfolded fill_absent_eq [OF le]]
    have "f = with_cells c (take (sparse_capacity p) (cells c)
              @ replicate (eid + 1 - sparse_capacity p) (Some (- 1)) @ drop (eid + 1) (cells c))"
      by (simp split: if_splits)
    with assms(2) True show ?thesis by (simp add: c)
  qed
  ultimately show ?thesis using res True assms(2) by auto
qed

lemma add_grow_dense_effect:
  assumes "add_grow_dense w p = Some (w', p')"
    and "length (cells (dense p)) = dense_capacity p" "dense_count p \<le> dense_capacity p"
  shows "heap_only w w'
       \<and> sparse p' = sparse p \<and> sparse_capacity p' = sparse_capacity p
       \<and> dense_count p' = dense_count p
       \<and> data p' = data p \<and> count p' = count p \<and> capacity p' = capacity p
       \<and> element_size p' = element_size p \<and> type_id p' = type_id p
       \<and> on_create p' = on_create p \<and> on_destroy p' = on_destroy p
       \<and> (\<exists>k. cells (dense p') = cells (dense p) @ replicate k None)
       \<and> length (cells (dense p')) = dense_capacity p'
       \<and> dense_count p < dense_capacity p'"
proof (cases "dense_count p \<ge> dense_capacity p")
  case False
  with assms show ?thesis
    by (auto simp: add_grow_dense_def heap_only_refl intro: exI [of _ 0])
next
  case True
  let ?nc = "if dense_capacity p < 8 then 8 else dense_capacity p * 2"
  let ?wa = "w\<lparr>heap_next := heap_next w + 1\<rparr>"
  from True assms(1) obtain c where
    co: "carry_over ?wa (Array (heap_next w) (replicate ?nc None)) (dense p)
           (dense_capacity p) ENTITY_HANDLE = Some (c, w')"
    and res: "p' = p\<lparr>dense_capacity := ?nc, dense := c\<rparr>"
    by (auto simp: add_grow_dense_def new_array_def Let_def split: bind_splits)
  from carry_over_effect [OF co] assms(2)
  have ho: "heap_only ?wa w'" and
    c: "c = Array (heap_next w) (cells (dense p) @ replicate (?nc - dense_capacity p) None)"
    by auto
  have "heap_only w ?wa" by (simp add: heap_only_def)
  from this ho have "heap_only w w'" by (rule heap_only_trans)
  moreover have "dense_count p < ?nc" using True assms(3) by auto
  ultimately show ?thesis using res c assms(2)
    by (auto simp del: replicate_eq_replicate)
qed


lemma Component_Pool_add_sparse_set:
  assumes wf: "sparse_set p" and absent: "Component_Pool_has p e = Some False"
    and add: "Component_Pool_add w p e = Some (w', p', n)"
  shows "heap_only w w' \<and> sparse_set p'
       \<and> set (dense_list p') = insert (Some e) (set (dense_list p))
       \<and> n = count p * element_size p \<and> Component_Pool_get p' e = Some n
       \<and> n + element_size p \<le> length (cells (data p')) \<and> data p' \<noteq> nullptr
       \<and> (\<forall>e'. Some e' \<in> set (dense_list p) \<longrightarrow> pool_value p' e' = pool_value p e')
       \<and> element_size p' = element_size p \<and> type_id p' = type_id p
       \<and> on_create p' = on_create p \<and> on_destroy p' = on_destroy p"
proof -
  define m dn sp bs es where "m = dense_count p" and "dn = cells (dense p)"
    and "sp = cells (sparse p)" and "bs = cells (data p)" and "es = element_size p"
  note defs = m_def dn_def sp_def bs_def es_def
  from wf have len: "length sp = sparse_capacity p" "length dn = dense_capacity p"
    "length bs = capacity p * es" "m \<le> length dn" "count p = m" "m \<le> capacity p"
    and data: "capacity p = 0 \<or> data p \<noteq> nullptr"
    and fwd: "\<And>i. i < m \<Longrightarrow> \<exists>x. dn ! i = Some x \<and> slot x < length sp \<and> sp ! slot x = Some (int i)"
    and bwd: "\<And>s. s < length sp \<Longrightarrow> \<exists>k. sp ! s = Some k
            \<and> (k = - 1 \<or> (0 \<le> k \<and> nat k < m \<and> (\<exists>x. dn ! nat k = Some x \<and> slot x = s)))"
    unfolding sparse_set_iff defs by auto
  from absent have free: "slot e < length sp \<Longrightarrow> sp ! slot e = Some (- 1)"
    by (auto simp: Component_Pool_has_def Let_def load_cells slot_def defs len(1) [unfolded defs]
        split: if_splits bind_splits)
  from add obtain w1 p1 w2 p3 s3 w3 p5 d5 where
    g1: "add_grow_data w p = Some (w1, p1)" and
    g2: "add_grow_sparse w1 (p1\<lparr>count := count p1 + 1\<rparr>) (slot e) = Some (w2, p3)" and
    s3: "store (sparse p3) (slot e) (Some (int (dense_count p3))) = Some s3" and
    g3: "add_grow_dense w2 (p3\<lparr>sparse := s3\<rparr>) = Some (w3, p5)" and
    d5: "store (dense p5) (dense_count p5) (Some e) = Some d5" and
    res: "w' = w3" "p' = p5\<lparr>dense := d5, dense_count := dense_count p5 + 1\<rparr>"
      "n = count p1 * element_size p1"
    by (auto simp: Component_Pool_add_def Let_def slot_def split: bind_splits)
  from add_grow_data_effect [OF g1] wf
  have e1: "heap_only w w1" "sparse p1 = sparse p" "sparse_capacity p1 = sparse_capacity p"
    "dense p1 = dense p" "dense_count p1 = m" "dense_capacity p1 = dense_capacity p"
    "count p1 = m" "element_size p1 = es" "type_id p1 = type_id p"
    "on_create p1 = on_create p" "on_destroy p1 = on_destroy p"
    "length (cells (data p1)) = capacity p1 * es" "m < capacity p1" "data p1 \<noteq> nullptr"
    and "\<exists>k. cells (data p1) = bs @ replicate k None"
    unfolding sparse_set_iff defs by auto
  then obtain k1 where bs1: "cells (data p1) = bs @ replicate k1 None" by blast
  from add_grow_sparse_effect [OF g2] e1 len(1)
  have e2: "heap_only w1 w2" "dense p3 = dense p" "dense_count p3 = m"
    "dense_capacity p3 = dense_capacity p" "data p3 = data p1" "count p3 = m + 1"
    "capacity p3 = capacity p1" "element_size p3 = es" "type_id p3 = type_id p"
    "on_create p3 = on_create p" "on_destroy p3 = on_destroy p"
    "cells (sparse p3) = sp @ replicate (sparse_capacity p3 - length sp) (Some (- 1))"
    "length (cells (sparse p3)) = sparse_capacity p3" "slot e < sparse_capacity p3"
    "length sp \<le> sparse_capacity p3"
    by (auto simp: defs)
  define sp3 where "sp3 = sp @ replicate (sparse_capacity p3 - length sp) (Some (- 1))"
  from s3 e2 have s3': "s3 = with_cells (sparse p3) (sp3[slot e := Some (int m)])"
    "sparse p3 \<noteq> nullptr"
    by (auto simp: store_cells sp3_def dest: length_pos_not_null)
  then have cs3: "cells s3 = sp3[slot e := Some (int m)]" by (simp add: cells_with_cells)
  from add_grow_dense_effect [OF g3] e2 len(2,4)
  have e3: "heap_only w2 w3" "sparse p5 = s3" "sparse_capacity p5 = sparse_capacity p3"
    "dense_count p5 = m" "data p5 = data p1" "count p5 = m + 1" "capacity p5 = capacity p1"
    "element_size p5 = es" "type_id p5 = type_id p"
    "on_create p5 = on_create p" "on_destroy p5 = on_destroy p"
    "length (cells (dense p5)) = dense_capacity p5" "m < dense_capacity p5"
    and "\<exists>k. cells (dense p5) = dn @ replicate k None"
    by (auto simp: defs)
  then obtain k5 where dn5: "cells (dense p5) = dn @ replicate k5 None" by blast
  define dn' where "dn' = (dn @ replicate k5 None)[m := Some e]"
  define sp' where "sp' = sp3[slot e := Some (int m)]"
  from d5 e3 dn5 have d5': "d5 = with_cells (dense p5) dn'" "dense p5 \<noteq> nullptr"
    by (auto simp: store_cells dn'_def dest: length_pos_not_null)
  have cells': "cells (sparse p') = sp'" "cells (dense p') = dn'" "cells (data p') = bs @ replicate k1 None"
    "dense_count p' = m + 1" "count p' = m + 1" "capacity p' = capacity p1"
    "element_size p' = es" "sparse_capacity p' = sparse_capacity p3"
    "dense_capacity p' = dense_capacity p5" "data p' \<noteq> nullptr"
    using e3 e1 d5' cs3 bs1 by (simp_all add: res sp'_def cells_with_cells)
  have lens: "length sp' = sparse_capacity p3" "length dn' = dense_capacity p5"
    "length sp3 = sparse_capacity p3"
    using e2 e3 dn5 by (simp_all add: sp'_def dn'_def sp3_def)
  have slot_e: "slot e < length sp'" using e2 lens by simp
  have old_slot: "slot x \<noteq> slot e" if "i < m" "dn ! i = Some x" for i x
    using fwd [OF that(1)] that(2) free by auto
  have fwd': "\<exists>x. dn' ! i = Some x \<and> slot x < length sp' \<and> sp' ! slot x = Some (int i)"
    if i: "i < m + 1" for i
  proof (cases "i = m")
    case True
    with len(4) e3 dn5 slot_e lens show ?thesis
      by (auto simp: dn'_def sp'_def nth_list_update)
  next
    case False
    with i have lt: "i < m" by simp
    from fwd [OF lt] obtain x where x: "dn ! i = Some x" "slot x < length sp" "sp ! slot x = Some (int i)"
      by auto
    with old_slot [OF lt x(1)] lt len(4) e2 lens show ?thesis
      by (auto simp: dn'_def sp'_def sp3_def nth_append nth_list_update)
  qed
  have bwd': "\<exists>k. sp' ! s = Some k
        \<and> (k = - 1 \<or> (0 \<le> k \<and> nat k < m + 1 \<and> (\<exists>x. dn' ! nat k = Some x \<and> slot x = s)))"
    if s: "s < length sp'" for s
  proof (cases "s = slot e")
    case True
    with s len(4) e3 dn5 lens show ?thesis
      by (auto simp: sp'_def dn'_def nth_list_update)
  next
    case ne: False
    show ?thesis
    proof (cases "s < length sp")
      case True
      from bwd [OF True] obtain k where k: "sp ! s = Some k"
        "k = - 1 \<or> (0 \<le> k \<and> nat k < m \<and> (\<exists>x. dn ! nat k = Some x \<and> slot x = s))"
        by auto
      with ne True len(4) show ?thesis
        by (auto simp: sp'_def sp3_def dn'_def nth_append nth_list_update)
    next
      case False
      with ne s lens show ?thesis
        by (auto simp: sp'_def sp3_def nth_append nth_list_update)
    qed
  qed
  have wf': "sparse_set p'"
    unfolding sparse_set_iff cells'
    using lens e1 e3 fwd' bwd' bs1 cells'(10)
    by auto
  have mem': "set (dense_list p') = insert (Some e) (set (dense_list p))"
  proof -
    have "m < length (dn @ replicate k5 None)" using e3(12,13) dn5 by simp
    then have "take (m + 1) dn' = take m (dn @ replicate k5 None) @ [Some e]"
      by (simp add: dn'_def take_Suc_conv_app_nth)
    with len(4) have "take (m + 1) dn' = take m dn @ [Some e]" by simp
    then show ?thesis by (simp add: dense_list_def cells' defs [symmetric])
  qed
  have n: "n = m * es" using res e1 by simp
  have reg: "m * es + es \<le> length (bs @ replicate k1 None)"
  proof -
    have "m * es + es \<le> capacity p1 * es" using e1(13) by (rule mult_region_le)
    with e1(12) bs1 show ?thesis by simp
  qed
  have get': "Component_Pool_get p' e = Some n"
    using slot_e
    by (simp add: Component_Pool_get_def sparse_idx_def load_cells get_by_idx_def cells'
        slot_def [symmetric] n sp'_def Option.bind_eq_Some_conv)
  have vals: "pool_value p' x = pool_value p x" if x: "Some x \<in> set (dense_list p)" for x
  proof -
    from x obtain i where i: "i < m" "dn ! i = Some x"
      using len(4) by (auto simp: in_dense_list defs)
    from fwd [OF i(1)] i(2) have sx: "slot x < length sp" "sp ! slot x = Some (int i)" by auto
    have ne: "slot x \<noteq> slot e" by (rule old_slot [OF i])
    have ri: "i * es + es \<le> length bs"
    proof -
      have "i * es + es \<le> m * es" using i(1) by (rule mult_region_le)
      moreover have "m * es \<le> capacity p * es" using len(6) by (rule mult_le_mono1)
      ultimately show ?thesis by (simp only: len(3))
    qed
    have nn: "data p \<noteq> nullptr" using data len(6) i(1) by auto
    have old: "pool_value p x = Some (take es (drop (i * es) bs))"
      using sx ri nn
      by (simp add: pool_value_def Component_Pool_get_def sparse_idx_def load_cells get_by_idx_def
          read_bytes_cells slot_def [symmetric] defs [symmetric] Option.bind_eq_Some_conv)
    have "pool_value p' x = Some (take es (drop (i * es) (bs @ replicate k1 None)))"
      using sx ne ri lens e2(15)
      by (simp add: pool_value_def Component_Pool_get_def sparse_idx_def load_cells get_by_idx_def
          read_bytes_cells slot_def [symmetric] cells' sp'_def sp3_def nth_append
          Option.bind_eq_Some_conv)
    with old ri show ?thesis by simp
  qed
  have "heap_only w w'"
    using e1(1) e2(1) e3(1) res(1) by (blast intro: heap_only_trans)
  then show ?thesis
    using wf' mem' n get' reg vals cells' e3 len(5) by (auto simp: res defs)
qed

section \<open>The World invariant\<close>

lemma same_table_refl: "same_table w w"
  by (simp add: same_table_def)

lemma same_table_trans: "same_table w w1 \<Longrightarrow> same_table w1 w2 \<Longrightarrow> same_table w w2"
  by (simp add: same_table_def)

lemma same_core_refl: "same_core w w"
  by (simp add: same_core_def same_table_def)

lemma same_core_trans: "same_core w w1 \<Longrightarrow> same_core w1 w2 \<Longrightarrow> same_core w w2"
  by (simp add: same_core_def same_table_def)

lemma heap_only_core: "heap_only w w' \<Longrightarrow> same_core w w'"
  by (simp add: heap_only_def same_core_def same_table_def)

lemma fire_core: "fire run f w e = Some w' \<Longrightarrow> same_core w w'"
  by (simp add: same_core_def same_table_def fire_frame)

lemma commit_deletions_core: "same_core w (commit_deletions w)"
  by (simp add: commit_deletions_eq same_core_def same_table_def)

lemma Entity_valid_table: "same_table w w' \<Longrightarrow> Entity_valid w' h = Entity_valid w h"
  by (auto simp: Entity_valid_def same_table_def Let_def)

lemma table_inv_iff:
  "table_inv w \<longleftrightarrow>
     length (cells (entities w)) = entity_capacity w \<and> entity_count w \<le> entity_capacity w
     \<and> (\<forall>s < entity_count w. \<exists>h. cells (entities w) ! s = Some h)"
  by (auto simp: table_inv_def)

lemma sparse_set_no_None: "sparse_set p \<Longrightarrow> None \<notin> set (dense_list p)"
proof
  assume wf: "sparse_set p" and "None \<in> set (dense_list p)"
  then obtain i where "i < dense_count p" "cells (dense p) ! i = None"
    by (auto simp: dense_list_def in_set_conv_nth)
  with wf show False unfolding sparse_set_iff by fastforce
qed

lemma pools_inv_iff:
  "pools_inv w \<longleftrightarrow>
     length (cells (pools w)) = pool_capacity w \<and> pool_count w \<le> pool_capacity w
     \<and> (\<forall>k < pool_count w. sparse_set (cells (pools w) ! k)
           \<and> (\<forall>e. Some e \<in> set (dense_list (cells (pools w) ! k)) \<longrightarrow> Entity_valid w e = Some True))
     \<and> (\<forall>k. pool_count w \<le> k \<and> k < pool_capacity w \<longrightarrow> cells (pools w) ! k = Component_Pool_default)"
proof -
  have "(\<forall>x \<in> set (dense_list p). case x of None \<Rightarrow> False | Some e \<Rightarrow> V e)
      \<longleftrightarrow> (\<forall>e. Some e \<in> set (dense_list p) \<longrightarrow> V e)"
    if "sparse_set p" for p :: "'a Component_Pool" and V
    using sparse_set_no_None [OF that] by (auto split: option.splits) (metis not_None_eq)
  then show ?thesis
    unfolding pools_inv_def by (auto simp: Ball_def)
qed

lemma table_inv_core: "same_table w w' \<Longrightarrow> table_inv w \<Longrightarrow> table_inv w'"
  by (simp add: table_inv_def same_table_def)

lemma world_inv_core: "same_core w w' \<Longrightarrow> world_inv w \<Longrightarrow> world_inv w'"
  unfolding world_inv_def pools_inv_iff
  by (auto simp: same_core_def table_inv_core Entity_valid_table)

lemma sparse_set_default: "sparse_set (Component_Pool_init Component_Pool_default tid sz)"
  by (simp add: sparse_set_def Component_Pool_init_def Component_Pool_default_def)

lemma dense_list_default: "dense_list (Component_Pool_init Component_Pool_default tid sz) = []"
  by (simp add: dense_list_def Component_Pool_init_def Component_Pool_default_def)

text \<open>Replacing one pool in use by a sparse set whose entries are live.\<close>

lemma world_inv_pool_update:
  assumes inv: "world_inv w" and i: "i < pool_count w"
    and wf: "sparse_set p'"
    and live: "\<And>e. Some e \<in> set (dense_list p') \<Longrightarrow> Entity_valid w e = Some True"
    and core: "same_table w w'" "pool_count w' = pool_count w" "pool_capacity w' = pool_capacity w"
      "pools w' = with_cells (pools w) ((cells (pools w))[i := p'])"
  shows "world_inv w'"
proof -
  from inv i have "i < length (cells (pools w))"
    by (simp add: world_inv_def pools_inv_iff)
  then have nn: "pools w \<noteq> nullptr" by (rule length_pos_not_null)
  then have cs: "cells (pools w') = (cells (pools w))[i := p']"
    by (simp add: core cells_with_cells)
  show ?thesis
    using inv i wf live core(1,2,3)
    unfolding world_inv_def pools_inv_iff cs
    by (auto simp: table_inv_core Entity_valid_table nth_list_update)
qed

lemma find_pool_Some:
  "find_pool ps tid js = Some (Some i) \<Longrightarrow>
     i \<in> set js \<and> i < length (cells ps) \<and> type_id (cells ps ! i) = tid"
  by (induction js) (auto simp: index_cells split: bind_splits if_splits)

lemma find_pool_None:
  "find_pool ps tid js = Some None \<Longrightarrow>
     (\<forall>k \<in> set js. k < length (cells ps) \<and> type_id (cells ps ! k) \<noteq> tid)"
  by (induction js) (auto simp: index_cells split: bind_splits if_splits)

lemma find_pool_cong:
  "\<forall>k \<in> set js. k < length (cells ps) \<and> k < length (cells ps')
        \<and> type_id (cells ps' ! k) = type_id (cells ps ! k)
     \<Longrightarrow> find_pool ps' tid js = find_pool ps tid js"
  by (induction js) (auto simp: index_eq)

lemma find_pool_append:
  "find_pool ps tid (js @ ks) =
     Option.bind (find_pool ps tid js) (\<lambda>r. case r of Some i \<Rightarrow> Some (Some i) | None \<Rightarrow> find_pool ps tid ks)"
  by (induction js) (auto split: bind_splits)

section \<open>Finding and creating pools\<close>

lemma find_pool_none_eq:
  "\<forall>k \<in> set js. k < length (cells ps) \<and> type_id (cells ps ! k) \<noteq> tid
     \<Longrightarrow> find_pool ps tid js = Some None"
  by (induction js) (auto simp: index_eq)

lemma find_pool_first:
  "find_pool ps tid [0..<n] = Some (Some i) \<Longrightarrow>
     i < n \<and> i < length (cells ps) \<and> type_id (cells ps ! i) = tid
     \<and> (\<forall>k < i. type_id (cells ps ! k) \<noteq> tid)"
proof (induction n)
  case 0
  then show ?case by simp
next
  case (Suc n)
  from Suc.prems obtain r where r: "find_pool ps tid [0..<n] = Some r"
    and rest: "(case r of Some j \<Rightarrow> Some (Some j) | None \<Rightarrow> find_pool ps tid [n]) = Some (Some i)"
    by (auto simp: find_pool_append split: bind_splits)
  show ?case
  proof (cases r)
    case (Some j)
    with rest r Suc.IH show ?thesis by auto
  next
    case None
    with rest have "i = n" "n < length (cells ps)" "type_id (cells ps ! n) = tid"
      by (auto simp: index_eq split: if_splits)
    moreover from find_pool_None [OF r [unfolded None]]
    have "\<forall>k < n. type_id (cells ps ! k) \<noteq> tid" by simp
    ultimately show ?thesis by simp
  qed
qed

lemma find_pool_found:
  assumes "i < n" "n \<le> length (cells ps)" "type_id (cells ps ! i) = tid"
    "\<forall>k < i. type_id (cells ps ! k) \<noteq> tid"
  shows "find_pool ps tid [0..<n] = Some (Some i)"
proof -
  have split: "[0..<n] = [0..<i] @ i # [Suc i..<n]"
  proof -
    have "[0..<i + (n - i)] = [0..<i] @ [i..<i + (n - i)]" by (intro upt_add_eq_append) simp
    with assms(1) show ?thesis by (simp add: upt_conv_Cons)
  qed
  have "find_pool ps tid [0..<i] = Some None"
    using assms by (intro find_pool_none_eq) auto
  then show ?thesis
    using assms by (simp add: split find_pool_append index_eq)
qed

lemma get_pool_found:
  assumes "i < pool_count w" "pool_count w \<le> length (cells (pools w))"
    "type_id (cells (pools w) ! i) = tid" "\<forall>k < i. type_id (cells (pools w) ! k) \<noteq> tid"
  shows "get_pool w tid sz = Some (w, i)"
  using find_pool_found [OF assms] by (simp add: get_pool_def)

lemma get_pool_effect:
  assumes inv: "world_inv w" and gp: "get_pool w tid sz = Some (w', i)"
  shows "world_inv w' \<and> same_table w w' \<and> iteration_depth w' = iteration_depth w
       \<and> uptr w' = uptr w
       \<and> i < pool_count w' \<and> pool_count w' \<le> length (cells (pools w'))
       \<and> type_id (cells (pools w') ! i) = tid
       \<and> (\<forall>k < i. type_id (cells (pools w') ! k) \<noteq> tid)
       \<and> pool_count w \<le> pool_count w'
       \<and> (\<forall>k < pool_count w. cells (pools w') ! k = cells (pools w) ! k)
       \<and> (i < pool_count w \<or> cells (pools w') ! i = Component_Pool_init Component_Pool_default tid sz)"
proof -
  from inv have pinv: "length (cells (pools w)) = pool_capacity w" "pool_count w \<le> pool_capacity w"
    "\<And>k. pool_count w \<le> k \<Longrightarrow> k < pool_capacity w \<Longrightarrow> cells (pools w) ! k = Component_Pool_default"
    by (auto simp: world_inv_def pools_inv_iff)
  from gp obtain found where found: "find_pool (pools w) tid [0..<pool_count w] = Some found"
    by (auto simp: get_pool_def split: bind_splits)
  show ?thesis
  proof (cases found)
    case (Some j)
    with gp found have eq: "w' = w" "i = j" by (auto simp: get_pool_def)
    from find_pool_first [OF found [unfolded Some]] eq pinv inv show ?thesis
      by (auto simp: same_table_refl)
  next
    case None
    from find_pool_None [OF found [unfolded None]]
    have fresh: "\<forall>k < pool_count w. type_id (cells (pools w) ! k) \<noteq> tid" by simp
    define n where "n = pool_count w"
    let ?nc = "if pool_capacity w < 8 then 8 else pool_capacity w * 2"
    let ?wa = "w\<lparr>heap_next := heap_next w + 1\<rparr>"
    from gp found None obtain w1 p ps where
      w1: "(if pool_count w \<ge> pool_capacity w then
              do { let new_capacity = (if pool_capacity w < 8 then 8 else pool_capacity w * 2);
                   let (new_alloc, wa) = new_array w new_capacity Component_Pool_default;
                   (copied, wb) \<leftarrow> carry_over wa new_alloc (pools w) (pool_capacity w) COMPONENT_POOL;
                   Some (wb\<lparr>pools := copied, pool_capacity := new_capacity\<rparr>) }
            else Some w) = Some w1"
      and p: "index (pools w1) (pool_count w1) = Some p"
      and ps: "store (pools w1) (pool_count w1) (Component_Pool_init p tid sz) = Some ps"
      and res: "w' = w1\<lparr>pools := ps, pool_count := pool_count w1 + 1\<rparr>" "i = pool_count w1"
      by (auto simp: get_pool_def Let_def split: bind_splits)
    have w1_props: "same_table w w1 \<and> iteration_depth w1 = iteration_depth w \<and> uptr w1 = uptr w
        \<and> pool_count w1 = n \<and> length (cells (pools w1)) = pool_capacity w1
        \<and> n < pool_capacity w1
        \<and> (\<forall>k < n. cells (pools w1) ! k = cells (pools w) ! k)
        \<and> (\<forall>k. n \<le> k \<and> k < pool_capacity w1 \<longrightarrow> cells (pools w1) ! k = Component_Pool_default)"
    proof (cases "pool_count w \<ge> pool_capacity w")
      case False
      with w1 have "w1 = w" by simp
      with False pinv show ?thesis by (auto simp: n_def same_table_refl)
    next
      case True
      with w1 obtain c wb where
        co: "carry_over ?wa (Array (heap_next w) (replicate ?nc Component_Pool_default))
               (pools w) (pool_capacity w) COMPONENT_POOL = Some (c, wb)"
        and w1': "w1 = wb\<lparr>pools := c, pool_capacity := ?nc\<rparr>"
        by (auto simp: new_array_def Let_def split: bind_splits)
      from carry_over_effect [OF co] pinv(1)
      have ho: "heap_only ?wa wb"
        and c: "c = Array (heap_next w) (cells (pools w) @ replicate (?nc - pool_capacity w) Component_Pool_default)"
        and le: "pool_capacity w \<le> ?nc"
        by auto
      from ho have hf: "entities wb = entities w" "entity_capacity wb = entity_capacity w"
        "entity_count wb = entity_count w" "alive_count wb = alive_count w" "avail_id wb = avail_id w"
        "pool_count wb = pool_count w" "iteration_depth wb = iteration_depth w" "uptr wb = uptr w"
        by (simp_all add: heap_only_def)
      have "n < ?nc" using True pinv(2) by (auto simp: n_def)
      with hf pinv show ?thesis
        by (auto simp: w1' c same_table_def n_def nth_append)
    qed
    then have w1p: "same_table w w1" "iteration_depth w1 = iteration_depth w" "uptr w1 = uptr w"
      "pool_count w1 = n" "length (cells (pools w1)) = pool_capacity w1" "n < pool_capacity w1"
      "\<And>k. k < n \<Longrightarrow> cells (pools w1) ! k = cells (pools w) ! k"
      "\<And>k. n \<le> k \<Longrightarrow> k < pool_capacity w1 \<Longrightarrow> cells (pools w1) ! k = Component_Pool_default"
      by auto
    from p w1p have pd: "p = Component_Pool_default" by (auto simp: index_cells)
    have nn: "pools w1 \<noteq> nullptr" using w1p(5,6) by (auto dest: length_pos_not_null)
    from ps w1p have ps': "ps = with_cells (pools w1) ((cells (pools w1))[n := Component_Pool_init Component_Pool_default tid sz])"
      by (simp add: store_cells pd)
    then have cps: "cells ps = (cells (pools w1))[n := Component_Pool_init Component_Pool_default tid sz]"
      using nn by (simp add: cells_with_cells)
    have st: "same_table w w'" using w1p(1) by (simp add: res same_table_def)
    have sets: "sparse_set (cells (pools w) ! k)"
      "\<And>e. Some e \<in> set (dense_list (cells (pools w) ! k)) \<Longrightarrow> Entity_valid w e = Some True"
      if "k < n" for k
      using inv that by (auto simp: world_inv_def pools_inv_iff n_def)
    have w'f: "cells (pools w') = (cells (pools w1))[n := Component_Pool_init Component_Pool_default tid sz]"
      "pool_count w' = n + 1" "pool_capacity w' = pool_capacity w1"
      using w1p(4) by (simp_all add: res cps)
    have "pools_inv w'"
      unfolding pools_inv_iff w'f Entity_valid_table [OF st]
      using w1p sets
      by (auto simp: nth_list_update sparse_set_default dense_list_default less_Suc_eq)
    moreover have "table_inv w'" using inv st by (auto simp: world_inv_def table_inv_core)
    ultimately have "world_inv w'" by (simp add: world_inv_def)
    moreover have "type_id (Component_Pool_init Component_Pool_default tid sz) = tid"
      by (simp add: Component_Pool_init_def)
    ultimately show ?thesis
      using st w1p fresh
      by (auto simp: res cps n_def nth_list_update)
  qed
qed

section \<open>The identity table under new_entity\<close>

lemma load_eq: "load p i = (if i < length (cells p) then cells p ! i else None)"
  by (cases p) (auto simp: load_def)

lemma Entity_valid_iff:
  "Entity_valid w h = Some True \<longleftrightarrow>
     slot h < entity_count w \<and> slot h < length (cells (entities w))
     \<and> cells (entities w) ! slot h = Some h"
  by (auto simp: Entity_valid_def Let_def slot_def load_eq split: bind_splits if_splits)

lemma live_slot_unique:
  "Entity_valid w a = Some True \<Longrightarrow> Entity_valid w b = Some True \<Longrightarrow> slot a = slot b \<Longrightarrow> a = b"
  by (auto simp: Entity_valid_iff)

lemma slot_make_handle: "slot (make_handle i v) = unat i"
  by (simp add: slot_def get_entity_id_make_handle)

lemma generate_entity_effect:
  assumes inv: "table_inv w" and gen: "generate_entity w = Some (w', e)"
  shows "table_inv w' \<and> entity_count w' = entity_count w + 1
       \<and> e = make_handle (of_nat (entity_count w)) 0
       \<and> entity_count w < length (cells (entities w'))
       \<and> cells (entities w') ! entity_count w = Some e
       \<and> (\<forall>s < entity_count w. cells (entities w') ! s = cells (entities w) ! s)
       \<and> avail_id w' = avail_id w \<and> alive_count w' = alive_count w
       \<and> pools w' = pools w \<and> pool_count w' = pool_count w \<and> pool_capacity w' = pool_capacity w"
proof -
  let ?n = "entity_count w"
  from inv have len: "length (cells (entities w)) = entity_capacity w" "?n \<le> entity_capacity w"
    and init: "\<And>s. s < ?n \<Longrightarrow> \<exists>h. cells (entities w) ! s = Some h"
    by (auto simp: table_inv_iff)
  from gen obtain w1 es where
    w1: "(if entity_count w \<ge> entity_capacity w then
            do { let new_capacity = (if entity_capacity w < 8 then 8 else entity_capacity w * 2);
                 let (new_alloc, wa) = new_array w new_capacity None;
                 copied \<leftarrow> mem_copy new_alloc (entities w) [0..<entity_capacity w];
                 let wb = delete_array wa (entities w);
                 Some (wb\<lparr>entity_capacity := new_capacity, entities := copied\<rparr>) }
          else Some w) = Some w1"
    and es: "store (entities w1) (entity_count w1) (Some (make_handle (of_nat (entity_count w1)) 0)) = Some es"
    and res: "w' = w1\<lparr>entities := es, entity_count := entity_count w1 + 1\<rparr>"
      "e = make_handle (of_nat (entity_count w1)) 0"
    by (auto simp: generate_entity_def Let_def split: bind_splits)
  have w1p: "entity_count w1 = ?n \<and> length (cells (entities w1)) = entity_capacity w1
      \<and> ?n < entity_capacity w1
      \<and> (\<forall>s < ?n. cells (entities w1) ! s = cells (entities w) ! s)
      \<and> avail_id w1 = avail_id w \<and> alive_count w1 = alive_count w
      \<and> pools w1 = pools w \<and> pool_count w1 = pool_count w \<and> pool_capacity w1 = pool_capacity w"
  proof (cases "entity_count w \<ge> entity_capacity w")
    case False
    with w1 len show ?thesis by auto
  next
    case True
    let ?nc = "if entity_capacity w < 8 then 8 else entity_capacity w * 2"
    from True w1 obtain c where
      c: "mem_copy (Array (heap_next w) (replicate ?nc None)) (entities w) [0..<entity_capacity w] = Some c"
      and w1': "w1 = (delete_array (w\<lparr>heap_next := heap_next w + 1\<rparr>) (entities w))
                  \<lparr>entity_capacity := ?nc, entities := c\<rparr>"
      by (auto simp: new_array_def Let_def split: bind_splits)
    from c len have ceq: "c = Array (heap_next w) (cells (entities w) @ replicate (?nc - entity_capacity w) None)"
      by (auto simp: mem_copy_upt)
    have ho: "heap_only w (delete_array (w\<lparr>heap_next := heap_next w + 1\<rparr>) (entities w))"
      by (rule heap_only_trans [OF _ heap_only_delete_array]) (simp add: heap_only_def)
    have "?n < ?nc" using True len by auto
    with ho len show ?thesis
      by (auto simp: w1' ceq heap_only_def nth_append)
  qed
  from es w1p have es': "es = with_cells (entities w1) ((cells (entities w1))[?n := Some e])"
    and nn: "entities w1 \<noteq> nullptr"
    by (auto simp: store_cells res dest: length_pos_not_null)
  then have ces: "cells es = (cells (entities w1))[?n := Some e]" by (simp add: cells_with_cells)
  show ?thesis
    using w1p init
    by (auto simp: table_inv_iff res ces nth_list_update)
qed

lemma recycle_entity_effect:
  assumes inv: "table_inv w" and rec: "recycle_entity w = Some (w', e)"
  shows "\<exists>c. unat (avail_id w) < length (cells (entities w))
       \<and> cells (entities w) ! unat (avail_id w) = Some c
       \<and> e = make_handle (avail_id w) (get_entity_version c)
       \<and> cells (entities w') = (cells (entities w))[unat (avail_id w) := Some e]
       \<and> avail_id w' = get_entity_id c
       \<and> entity_count w' = entity_count w \<and> entity_capacity w' = entity_capacity w
       \<and> alive_count w' = alive_count w
       \<and> pools w' = pools w \<and> pool_count w' = pool_count w \<and> pool_capacity w' = pool_capacity w"
  using rec
  by (auto simp: recycle_entity_def Let_def load_cells store_cells cells_with_cells
      split: bind_splits dest: length_pos_not_null)

lemma recycle_entity_table_inv:
  assumes inv: "table_inv w" and rec: "recycle_entity w = Some (w', e)"
  shows "table_inv w'"
  using recycle_entity_effect [OF assms] inv
  by (auto simp: table_inv_iff nth_list_update)

lemma new_entity_keeps_valid:
  assumes inv: "table_inv w" and new: "new_entity w = Some (w', e)"
    and live: "Entity_valid w h = Some True"
  shows "Entity_valid w' h = Some True"
proof (cases "avail_id w = null_entity_id")
  case True
  let ?w1 = "w\<lparr>alive_count := alive_count w + 1\<rparr>"
  from True new have gen: "generate_entity ?w1 = Some (w', e)" by (simp add: new_entity_def Let_def)
  have "table_inv ?w1" using inv by (simp add: table_inv_def)
  from generate_entity_effect [OF this gen] live show ?thesis
    by (auto simp: Entity_valid_iff)
next
  case False
  let ?w1 = "w\<lparr>alive_count := alive_count w + 1\<rparr>"
  from False new have rec: "recycle_entity ?w1 = Some (w', e)" by (simp add: new_entity_def Let_def)
  have "table_inv ?w1" using inv by (simp add: table_inv_def)
  from recycle_entity_effect [OF this rec] obtain c where
    c: "cells (entities w) ! unat (avail_id w) = Some c"
      "cells (entities w') = (cells (entities w))[unat (avail_id w) := Some (make_handle (avail_id w) (get_entity_version c))]"
      "entity_count w' = entity_count w"
    by auto
  show ?thesis
  proof (cases "slot h = unat (avail_id w)")
    case True
    with live c have "c = h" by (simp add: Entity_valid_iff)
    moreover from True have "avail_id w = get_entity_id h" by (simp add: slot_def word_unat_eq_iff)
    ultimately have "make_handle (avail_id w) (get_entity_version c) = h"
      by (simp add: make_handle_split)
    with live c True show ?thesis by (auto simp: Entity_valid_iff)
  next
    case False
    with live c show ?thesis by (auto simp: Entity_valid_iff)
  qed
qed

lemma new_entity_world_inv:
  assumes inv: "world_inv w" and new: "new_entity w = Some (w', e)"
  shows "world_inv w'"
proof -
  from inv have tinv: "table_inv w" by (simp add: world_inv_def)
  let ?w1 = "w\<lparr>alive_count := alive_count w + 1\<rparr>"
  have t1: "table_inv ?w1" using tinv by (simp add: table_inv_def)
  have tab: "table_inv w'" and ps: "pools w' = pools w" "pool_count w' = pool_count w"
    "pool_capacity w' = pool_capacity w"
  proof -
    from new have "generate_entity ?w1 = Some (w', e) \<or> recycle_entity ?w1 = Some (w', e)"
      by (auto simp: new_entity_def Let_def split: if_splits)
    then have "table_inv w' \<and> pools w' = pools w \<and> pool_count w' = pool_count w
        \<and> pool_capacity w' = pool_capacity w"
    proof
      assume "generate_entity ?w1 = Some (w', e)"
      from generate_entity_effect [OF t1 this] show ?thesis by simp
    next
      assume r: "recycle_entity ?w1 = Some (w', e)"
      from recycle_entity_effect [OF t1 r] recycle_entity_table_inv [OF t1 r] show ?thesis by auto
    qed
    then show "table_inv w'" "pools w' = pools w" "pool_count w' = pool_count w"
      "pool_capacity w' = pool_capacity w" by auto
  qed
  have "pools_inv w'"
    using inv new_entity_keeps_valid [OF tinv new]
    unfolding world_inv_def pools_inv_iff ps by auto
  with tab show ?thesis by (simp add: world_inv_def)
qed

section \<open>The facade under the World invariant\<close>

lemma pool_in_use:
  assumes "world_inv w" "i < pool_count w"
  shows "index (pools w) i = Some (cells (pools w) ! i)"
    "sparse_set (cells (pools w) ! i)"
    "\<And>e. Some e \<in> set (dense_list (cells (pools w) ! i)) \<Longrightarrow> Entity_valid w e = Some True"
  using assms by (auto simp: world_inv_def pools_inv_iff index_eq)

lemma get_pool_again:
  assumes "world_inv w" "get_pool w tid sz = Some (w', i)"
  shows "get_pool w' tid sz' = Some (w', i)"
  using get_pool_effect [OF assms] by (intro get_pool_found) auto

lemma Entity_has_effect:
  assumes inv: "world_inv w" and has: "Entity_has w h tid sz = Some (w', b)"
  shows "Entity_valid w h = Some True \<and> world_inv w' \<and> same_table w w'
       \<and> iteration_depth w' = iteration_depth w \<and> uptr w' = uptr w
       \<and> (\<exists>i. get_pool w tid sz = Some (w', i) \<and> i < pool_count w'
              \<and> Component_Pool_has (cells (pools w') ! i) h = Some b)"
proof -
  from has obtain i p where v: "Entity_valid w h = Some True"
    and gp: "get_pool w tid sz = Some (w', i)"
    and p: "index (pools w') i = Some p" and b: "Component_Pool_has p h = Some b"
    by (auto simp: Entity_has_def assert_def split: bind_splits if_splits)
  from get_pool_effect [OF inv gp] p b v gp show ?thesis
    by (auto simp: index_cells)
qed

lemma has_true_member:
  assumes inv: "world_inv w" and i: "i < pool_count w"
    and live: "Entity_valid w h = Some True"
    and has: "Component_Pool_has (cells (pools w) ! i) h = Some True"
  shows "Some h \<in> set (dense_list (cells (pools w) ! i))"
proof -
  from has_member [OF pool_in_use(2) [OF inv i] has] obtain e' where
    e': "Some e' \<in> set (dense_list (cells (pools w) ! i))" "slot e' = slot h" by blast
  from pool_in_use(3) [OF inv i e'(1)] live e'(2) have "e' = h" by (rule live_slot_unique)
  with e'(1) show ?thesis by simp
qed

lemma Entity_get_effect:
  assumes inv: "world_inv w" and get: "Entity_get w h tid sz = Some (w', r)"
  shows "world_inv w' \<and> same_table w w' \<and> iteration_depth w' = iteration_depth w \<and> uptr w' = uptr w"
proof -
  from get obtain w0 present w1 i where has: "Entity_has w h tid sz = Some (w0, present)"
    and gp: "get_pool w0 tid sz = Some (w1, i)" and w': "w' = w1"
    by (auto simp: Entity_get_def split: bind_splits)
  from Entity_has_effect [OF inv has] obtain i0 where
    h: "world_inv w0" "same_table w w0" "iteration_depth w0 = iteration_depth w" "uptr w0 = uptr w"
      "get_pool w tid sz = Some (w0, i0)"
    by blast
  from get_pool_again [OF inv h(5)] gp have "w1 = w0" by simp
  with h w' show ?thesis by simp
qed

lemma sparse_set_data:
  assumes "sparse_set p" "length (cells d) = length (cells (data p))" "d \<noteq> nullptr"
  shows "sparse_set (p\<lparr>data := d\<rparr>)" "dense_list (p\<lparr>data := d\<rparr>) = dense_list p"
  using assms by (simp_all add: sparse_set_iff dense_list_def)

lemma Entity_add_stored:
  assumes inv: "world_inv w" and add: "Entity_add run w h tid c = Some (w', r)"
  shows "\<exists>ws i p n. fire run (on_create p) ws h = Some w' \<and> r = (address (data p), n)
          \<and> world_inv ws \<and> same_table w ws
          \<and> iteration_depth ws = iteration_depth w \<and> uptr ws = uptr w
          \<and> Entity_valid w h = Some True
          \<and> i < pool_count ws \<and> cells (pools ws) ! i = p
          \<and> type_id p = tid \<and> (\<forall>k < i. type_id (cells (pools ws) ! k) \<noteq> tid)
          \<and> Component_Pool_has p h = Some True
          \<and> (element_size p = length c \<longrightarrow> pool_value p h = Some (map Some c))"
proof -
  from add obtain w0 present w1 i p w2 p1 n d ps where
    v: "Entity_valid w h = Some True" and
    has: "Entity_has w h tid (length c) = Some (w0, present)" "\<not> present" and
    gp: "get_pool w0 tid (length c) = Some (w1, i)" and
    p: "index (pools w1) i = Some p" and
    pa: "Component_Pool_add w1 p h = Some (w2, p1, n)" and
    d: "write_bytes (data p1) n (map Some c) = Some d" and
    ps: "store (pools w2) i (p1\<lparr>data := d\<rparr>) = Some ps" and
    hook: "fire run (on_create p1) (w2\<lparr>pools := ps\<rparr>) h = Some w'" and
    r: "r = (address d, n)"
    by (auto simp: Entity_add_def assert_def split: bind_splits if_splits)
  from Entity_has_effect [OF inv has(1)] has(2) obtain i0 where
    h0: "world_inv w0" "same_table w w0" "iteration_depth w0 = iteration_depth w" "uptr w0 = uptr w"
      "get_pool w tid (length c) = Some (w0, i0)" "i0 < pool_count w0"
      "Component_Pool_has (cells (pools w0) ! i0) h = Some False"
    by auto
  from get_pool_again [OF inv h0(5)] gp have same: "w1 = w0" "i = i0" by simp_all
  from get_pool_effect [OF inv h0(5)] have
    first: "type_id (cells (pools w0) ! i0) = tid" "\<forall>k < i0. type_id (cells (pools w0) ! k) \<noteq> tid"
    by auto
  from pool_in_use [OF h0(1) h0(6)] p same have
    pe: "p = cells (pools w0) ! i0" and wf: "sparse_set p"
    and live: "\<And>e. Some e \<in> set (dense_list p) \<Longrightarrow> Entity_valid w0 e = Some True"
    by auto
  from h0(7) pe have absent: "Component_Pool_has p h = Some False" by simp
  from Component_Pool_add_sparse_set [OF wf absent pa] have
    a: "heap_only w1 w2" "sparse_set p1" "set (dense_list p1) = insert (Some h) (set (dense_list p))"
      "n = count p * element_size p" "Component_Pool_get p1 h = Some n"
      "n + element_size p \<le> length (cells (data p1))" "data p1 \<noteq> nullptr"
      "element_size p1 = element_size p" "type_id p1 = type_id p"
    by auto
  from d have dl: "length (cells d) = length (cells (data p1))" "d \<noteq> nullptr"
    and deq: "d = with_cells (data p1) (take n (cells (data p1)) @ map Some c
                @ drop (n + length c) (cells (data p1)))"
    and fit: "n + length c \<le> length (cells (data p1))"
    by (auto simp: write_bytes_cells cells_with_cells with_cells_null)
  let ?p = "p1\<lparr>data := d\<rparr>"
  let ?ws = "w2\<lparr>pools := ps\<rparr>"
  from sparse_set_data [OF a(2) dl] have wf': "sparse_set ?p" and dl': "dense_list ?p = dense_list p1" .
  from a(1) have core: "same_table w0 ?ws" "pool_count ?ws = pool_count w0"
    "pool_capacity ?ws = pool_capacity w0" "pools w2 = pools w0"
    "iteration_depth ?ws = iteration_depth w0" "uptr ?ws = uptr w0"
    by (simp_all add: heap_only_def same_table_def same)
  from ps core(4) have pseq: "pools ?ws = with_cells (pools w0) ((cells (pools w0))[i0 := ?p])"
    and inb: "i0 < length (cells (pools w0))"
    by (auto simp: store_cells same)
  have v0: "Entity_valid w0 h = Some True" using v h0(2) by (simp add: Entity_valid_table)
  have inv': "world_inv ?ws"
  proof (rule world_inv_pool_update [OF h0(1) h0(6) wf' _ core(1,2,3) pseq])
    fix e assume "Some e \<in> set (dense_list ?p)"
    with dl' a(3) have "e = h \<or> Some e \<in> set (dense_list p)" by auto
    with v0 live show "Entity_valid w0 e = Some True" by auto
  qed
  have cell: "cells (pools ?ws) ! i0 = ?p"
    using inb by (simp add: pseq cells_with_cells length_pos_not_null)
  have others: "\<forall>k < i0. cells (pools ?ws) ! k = cells (pools w0) ! k"
    using inb by (simp add: pseq cells_with_cells length_pos_not_null)
  have mem: "Some h \<in> set (dense_list ?p)" using dl' a(3) by simp
  have val: "pool_value ?p h = Some (map Some c)" if "element_size ?p = length c"
  proof -
    from that a(8) have es: "element_size p1 = length c" by simp
    have "Component_Pool_get ?p h = Some n"
      using a(5) by (simp add: Component_Pool_get_def sparse_idx_def get_by_idx_def)
    moreover have "take (length c) (drop n (cells d)) = map Some c"
      using patch_read_same [of n "map Some c" "cells (data p1)"] fit a(7)
      by (simp add: deq cells_with_cells)
    ultimately show ?thesis
      using fit dl es by (simp add: pool_value_def read_bytes_cells)
  qed
  have st: "same_table w ?ws" using h0(2) core(1) by (rule same_table_trans)
  show ?thesis
    apply (rule exI [of _ ?ws], rule exI [of _ i0], rule exI [of _ ?p], rule exI [of _ n])
    using hook r inv' st core(2,5,6) h0(3,4,6) v cell first others a(9) pe
      member_has [OF wf' mem] val same
    by simp
qed

lemma Entity_add_effect:
  assumes inv: "world_inv w" and add: "Entity_add run w h tid c = Some (w', r)"
  shows "world_inv w' \<and> same_table w w' \<and> iteration_depth w' = iteration_depth w"
proof -
  from Entity_add_stored [OF assms] obtain ws i p where
    f: "fire run (on_create p) ws h = Some w'" and ws: "world_inv ws" "same_table w ws"
    "iteration_depth ws = iteration_depth w" "cells (pools ws) ! i = p"
    by blast
  from fire_core [OF f] ws(1) have "world_inv w'" by (rule world_inv_core)
  moreover from fire_core [OF f] ws(2) have "same_table w w'"
    by (auto simp: same_core_def intro: same_table_trans)
  ultimately show ?thesis using fire_frame(10) [OF f] ws(3) by simp
qed

section \<open>Recycling\<close>

lemma Entity_destroy_table:
  assumes d: "Entity_destroy run w h = Some w'"
  shows "Entity_valid w h = Some True \<and> slot h < length (cells (entities w))
       \<and> cells (entities w') = (cells (entities w))[slot h := Some (make_handle (avail_id w) (get_entity_version h + 1))]
       \<and> avail_id w' = get_entity_id h \<and> entity_count w' = entity_count w
       \<and> alive_count w' = alive_count w - 1"
proof -
  from d obtain wp wr where
    v: "Entity_valid w h = Some True" and
    dp: "destroy_pools run w h [0..<pool_count w] = Some wp" and
    rel: "release_entity wp h (get_entity_version h + 1) = Some wr" and
    res: "w' = wr\<lparr>alive_count := alive_count wr - 1\<rparr>"
    by (auto simp: Entity_destroy_def assert_def Let_def split: bind_splits if_splits)
  from destroy_pools_table [OF dp] have same: "entities wp = entities w" "avail_id wp = avail_id w"
    "entity_count wp = entity_count w" "alive_count wp = alive_count w"
    by (simp_all add: same_table_def)
  from rel have r: "slot h < length (cells (entities wp))"
    "cells (entities wr) = (cells (entities wp))[slot h := Some (make_handle (avail_id wp) (get_entity_version h + 1))]"
    "avail_id wr = get_entity_id h" "entity_count wr = entity_count wp"
    "alive_count wr = alive_count wp"
    by (auto simp: release_entity_def Let_def store_cells slot_def cells_with_cells
        split: bind_splits dest: length_pos_not_null)
  show ?thesis using v r same by (simp add: res)
qed

lemma new_entity_pops:
  assumes "avail_id w \<noteq> null_entity_id" "unat (avail_id w) < length (cells (entities w))"
    and "cells (entities w) ! unat (avail_id w) = Some c"
  shows "\<exists>w'. new_entity w = Some (w', make_handle (avail_id w) (get_entity_version c))
       \<and> cells (entities w') = (cells (entities w))[unat (avail_id w) := Some (make_handle (avail_id w) (get_entity_version c))]
       \<and> avail_id w' = get_entity_id c \<and> entity_count w' = entity_count w
       \<and> alive_count w' = alive_count w + 1"
  using assms
  by (auto simp: new_entity_def recycle_entity_def Let_def load_eq store_eq cells_with_cells
      dest: length_pos_not_null)

lemma create_entities_append:
  "create_entities (n + m) w =
     do { (w1, es) \<leftarrow> create_entities n w; (w2, fs) \<leftarrow> create_entities m w1; Some (w2, es @ fs) }"
proof (induction n arbitrary: w)
  case 0
  show ?case by (simp split: bind_splits prod.splits)
next
  case (Suc n)
  show ?case by (simp add: Suc.IH split: bind_splits prod.splits)
qed

lemma create_entities_one:
  "create_entities (Suc 0) w = map_option (\<lambda>(w1, e). (w1, [e])) (new_entity w)"
  by (simp split: bind_splits prod.splits)


lemma version_recycled: "get_entity_version (recycled h) = get_entity_version h + 1"
  by (simp add: recycled_def get_entity_version_make_handle)

lemma slot_recycled: "slot (recycled h) = slot h"
  by (simp add: recycled_def slot_def get_entity_id_make_handle)

lemma recycled_neq: "recycled h \<noteq> h"
proof
  assume "recycled h = h"
  then have "get_entity_version (recycled h) = get_entity_version h" by simp
  then show False by (simp add: version_recycled)
qed

lemma lifo_core:
  assumes "\<forall>h \<in> set hs. Entity_valid w h = Some True \<and> get_entity_id h \<noteq> null_entity_id"
    and "distinct (map slot hs)"
    and "destroy_each run w hs = Some w1"
  shows "\<exists>w2. create_entities (length hs) w1 = Some (w2, map recycled (rev hs))
      \<and> avail_id w2 = avail_id w \<and> entity_count w2 = entity_count w \<and> alive_count w2 = alive_count w
      \<and> length (cells (entities w2)) = length (cells (entities w))
      \<and> (\<forall>s. s \<notin> slot ` set hs \<longrightarrow> cells (entities w2) ! s = cells (entities w) ! s)
      \<and> (\<forall>h \<in> set hs. cells (entities w2) ! slot h = Some (recycled h))
      \<and> entity_count w1 = entity_count w
      \<and> length (cells (entities w1)) = length (cells (entities w))
      \<and> (\<forall>s. s \<notin> slot ` set hs \<longrightarrow> cells (entities w1) ! s = cells (entities w) ! s)
      \<and> (\<forall>h \<in> set hs. \<exists>c. cells (entities w1) ! slot h = Some c
              \<and> get_entity_version c = get_entity_version h + 1)
      \<and> (hs \<noteq> [] \<longrightarrow> avail_id w1 = get_entity_id (last hs))"
  using assms
proof (induction hs arbitrary: w)
  case Nil
  then show ?case by simp
next
  case (Cons h hs)
  from Cons.prems(3) obtain wh where
    dh: "Entity_destroy run w h = Some wh" and rest: "destroy_each run wh hs = Some w1"
    by (auto split: bind_splits)
  let ?c = "make_handle (avail_id w) (get_entity_version h + 1)"
  from Entity_destroy_table [OF dh] have t:
    "slot h < length (cells (entities w))"
    "cells (entities wh) = (cells (entities w))[slot h := Some ?c]"
    "avail_id wh = get_entity_id h" "entity_count wh = entity_count w"
    "alive_count wh = alive_count w - 1"
    by simp_all
  from Cons.prems(1) have nn: "get_entity_id h \<noteq> null_entity_id" by simp
  from Cons.prems(2) have fresh: "slot h \<notin> slot ` set hs" and dist: "distinct (map slot hs)"
    by simp_all
  have live: "\<forall>k \<in> set hs. Entity_valid wh k = Some True \<and> get_entity_id k \<noteq> null_entity_id"
  proof
    fix k assume k: "k \<in> set hs"
    with Cons.prems(1) have "Entity_valid w k = Some True" "get_entity_id k \<noteq> null_entity_id"
      by simp_all
    moreover from k fresh have "slot k \<noteq> slot h" by (metis imageI)
    ultimately show "Entity_valid wh k = Some True \<and> get_entity_id k \<noteq> null_entity_id"
      by (simp add: Entity_valid_iff t)
  qed
  from Cons.IH [OF live dist rest] obtain w2 where ih:
    "create_entities (length hs) w1 = Some (w2, map recycled (rev hs))"
    "avail_id w2 = avail_id wh" "entity_count w2 = entity_count wh" "alive_count w2 = alive_count wh"
    "length (cells (entities w2)) = length (cells (entities wh))"
    "\<And>s. s \<notin> slot ` set hs \<Longrightarrow> cells (entities w2) ! s = cells (entities wh) ! s"
    "\<And>k. k \<in> set hs \<Longrightarrow> cells (entities w2) ! slot k = Some (recycled k)"
    "entity_count w1 = entity_count wh"
    "length (cells (entities w1)) = length (cells (entities wh))"
    "\<And>s. s \<notin> slot ` set hs \<Longrightarrow> cells (entities w1) ! s = cells (entities wh) ! s"
    "\<And>k. k \<in> set hs \<Longrightarrow> \<exists>c. cells (entities w1) ! slot k = Some c
              \<and> get_entity_version c = get_entity_version k + 1"
    "hs \<noteq> [] \<Longrightarrow> avail_id w1 = get_entity_id (last hs)"
    by blast
  have top: "avail_id w2 = get_entity_id h" using ih(2) t(3) by simp
  have a1: "avail_id w2 \<noteq> null_entity_id" using top nn by simp
  have a2: "unat (avail_id w2) < length (cells (entities w2))"
    using top t(1) ih(5) by (simp add: t(2) slot_def)
  have a3: "cells (entities w2) ! unat (avail_id w2) = Some ?c"
    using ih(6) [OF fresh] t(1) by (simp add: top t(2) slot_def)
  from new_entity_pops [OF a1 a2 a3] obtain w3 where pop:
    "new_entity w2 = Some (w3, recycled h)"
    "cells (entities w3) = (cells (entities w2))[slot h := Some (recycled h)]"
    "avail_id w3 = avail_id w" "entity_count w3 = entity_count w2"
    "alive_count w3 = alive_count w2 + 1"
    by (auto simp: top recycled_def slot_def get_entity_version_make_handle get_entity_id_make_handle)
  have "create_entities (length hs + 1) w1 = Some (w3, map recycled (rev hs) @ [recycled h])"
    unfolding create_entities_append by (simp add: ih(1) pop(1))
  then have c1: "create_entities (length (h # hs)) w1 = Some (w3, map recycled (rev (h # hs)))"
    by simp
  have c2: "avail_id w3 = avail_id w" "entity_count w3 = entity_count w"
    "alive_count w3 = alive_count w"
    "length (cells (entities w3)) = length (cells (entities w))"
    using pop ih(3,4,5) t by simp_all
  have c3: "\<forall>s. s \<notin> slot ` set (h # hs) \<longrightarrow> cells (entities w3) ! s = cells (entities w) ! s"
    using ih(6) by (simp add: pop(2) t(2))
  have c4: "\<forall>k \<in> set (h # hs). cells (entities w3) ! slot k = Some (recycled k)"
  proof
    fix k assume "k \<in> set (h # hs)"
    then consider "k = h" | "k \<in> set hs" "slot k \<noteq> slot h" using fresh by (metis imageI set_ConsD)
    then show "cells (entities w3) ! slot k = Some (recycled k)"
    proof cases
      case 1
      then show ?thesis using a2 by (simp add: pop(2) top slot_def)
    next
      case 2
      then show ?thesis using ih(7) by (simp add: pop(2))
    qed
  qed
  have c5: "entity_count w1 = entity_count w" "length (cells (entities w1)) = length (cells (entities w))"
    using ih(8,9) t by simp_all
  have c6: "\<forall>s. s \<notin> slot ` set (h # hs) \<longrightarrow> cells (entities w1) ! s = cells (entities w) ! s"
    using ih(10) by (simp add: t(2))
  have c7: "\<forall>k \<in> set (h # hs). \<exists>c. cells (entities w1) ! slot k = Some c
              \<and> get_entity_version c = get_entity_version k + 1"
  proof
    fix k assume "k \<in> set (h # hs)"
    then consider "k = h" | "k \<in> set hs" by auto
    then show "\<exists>c. cells (entities w1) ! slot k = Some c
              \<and> get_entity_version c = get_entity_version k + 1"
    proof cases
      case 1
      then show ?thesis using ih(10) [OF fresh] t(1)
        by (simp add: t(2) get_entity_version_make_handle)
    next
      case 2
      then show ?thesis by (rule ih(11))
    qed
  qed
  have c8: "avail_id w1 = get_entity_id (last (h # hs))"
  proof (cases "hs = []")
    case True
    with rest t(3) show ?thesis by simp
  next
    case False
    with ih(12) show ?thesis by simp
  qed
  from c1 c2 c3 c4 c5 c6 c7 c8 show ?case by blast
qed


lemma Entity_valid_False:
  "slot h < entity_count w \<Longrightarrow> slot h < length (cells (entities w))
     \<Longrightarrow> cells (entities w) ! slot h = Some c \<Longrightarrow> c \<noteq> h \<Longrightarrow> Entity_valid w h = Some False"
  by (simp add: Entity_valid_def Let_def slot_def load_eq)

lemma destroy_each_one: "destroy_each run w [h] = Entity_destroy run w h"
  by (simp split: bind_splits)

lemma generate_entity_total:
  assumes "table_inv w"
  shows "\<exists>w' e. generate_entity w = Some (w', e)"
proof -
  from assms have len: "length (cells (entities w)) = entity_capacity w"
    and le: "entity_count w \<le> entity_capacity w"
    by (simp_all add: table_inv_iff)
  show ?thesis
  proof (cases "entity_count w \<ge> entity_capacity w")
    case False
    with len show ?thesis
      by (simp add: generate_entity_def Let_def store_eq)
  next
    case True
    have keep: "entity_count (delete_array (w\<lparr>heap_next := Suc (heap_next w)\<rparr>) (entities w))
        = entity_count w"
      by (simp add: delete_array_def split: array.splits)
    from True len le show ?thesis
      by (auto simp: generate_entity_def Let_def new_array_def mem_copy_eq store_eq
          cells_with_cells length_cells_with_cells keep)
  qed
qed

lemma create_fresh:
  assumes "table_inv w" "entity_count w = k" "avail_id w = null_entity_id"
    and "pool_count w = 0" "alive_count w = of_nat k"
    and "\<forall>s < k. cells (entities w) ! s = Some (make_handle (of_nat s) 0)"
  shows "\<exists>w' hs. create_entities n w = Some (w', hs) \<and> table_inv w' \<and> entity_count w' = k + n
       \<and> avail_id w' = null_entity_id \<and> pool_count w' = 0 \<and> alive_count w' = of_nat (k + n)
       \<and> (\<forall>s < k + n. cells (entities w') ! s = Some (make_handle (of_nat s) 0))"
  using assms
proof (induction n arbitrary: w k)
  case 0
  then show ?case by simp
next
  case (Suc n)
  let ?w1 = "w\<lparr>alive_count := alive_count w + 1\<rparr>"
  have t1: "table_inv ?w1" using Suc.prems(1) by (simp add: table_inv_def)
  from generate_entity_total [OF t1] obtain w2 e where gen: "generate_entity ?w1 = Some (w2, e)"
    by blast
  with Suc.prems(3) have new: "new_entity w = Some (w2, e)"
    by (simp add: new_entity_def Let_def)
  from generate_entity_effect [OF t1 gen] Suc.prems have g:
    "table_inv w2" "entity_count w2 = Suc k" "avail_id w2 = null_entity_id" "pool_count w2 = 0"
    "alive_count w2 = of_nat (Suc k)"
    "cells (entities w2) ! k = Some (make_handle (of_nat k) 0)"
    "\<And>s. s < k \<Longrightarrow> cells (entities w2) ! s = Some (make_handle (of_nat s) 0)"
    by simp_all
  have all: "\<forall>s < Suc k. cells (entities w2) ! s = Some (make_handle (of_nat s) 0)"
    using g(6,7) by (simp add: less_Suc_eq)
  from Suc.IH [OF g(1,2,3,4,5) all] obtain w' hs where r:
    "create_entities n w2 = Some (w', hs)" "table_inv w'" "entity_count w' = Suc k + n"
    "avail_id w' = null_entity_id" "pool_count w' = 0" "alive_count w' = of_nat (Suc k + n)"
    "\<forall>s < Suc k + n. cells (entities w') ! s = Some (make_handle (of_nat s) 0)"
    by blast
  have "create_entities (Suc n) w = Some (w', e # hs)"
    by (simp add: new r(1))
  with r show ?case by simp
qed


lemma sentinel_handle:
  "get_entity_id (4294967295 :: Entity_Handle) = null_entity_id"
  "get_entity_version (4294967295 :: Entity_Handle) = 0"
  "slot (4294967295 :: Entity_Handle) = 4294967295"
  "make_handle 4294967295 0 = (4294967295 :: Entity_Handle)"
  "make_handle 4294967296 0 = (0 :: Entity_Handle)"
  "make_handle 0 0 = (0 :: Entity_Handle)"
  "get_entity_id (0 :: Entity_Handle) = 0" "get_entity_version (0 :: Entity_Handle) = 0"
  "slot (0 :: Entity_Handle) = 0"
  by (simp_all add: get_entity_id_def get_entity_version_def null_entity_id_def slot_def
      make_handle_def)

text \<open>
  Claim C5. \<open>new_entity\<close> pops the most recently freed slot first. Once the live handles
  \<open>hs\<close> have been destroyed in that order, the free list starts at the slot of the last of
  them, and as many calls of \<open>new_entity\<close> return these slots last-destroyed first, each
  with the version of its handle plus one. After that the free list, the number of slots
  and \<open>count()\<close> are what they were before, every destroyed handle answers \<open>valid()\<close>
  false, every handle returned answers true, and so does every other handle that was
  live. At ten fresh entities and the entity of slot 4 the slot returned is 4 with version
  1. This needs each slot to differ from \<open>null_entity_id\<close>, the end mark of the free list:
  a World with \<open>2 ^ 32\<close> slots has a live handle whose slot is that mark.
\<close>

theorem recycle_is_lifo:
  assumes live: "\<forall>h \<in> set hs. Entity_valid w h = Some True"
    and slots: "\<forall>h \<in> set hs. get_entity_id h \<noteq> null_entity_id"
    and dist: "distinct hs"
    and destroyed: "destroy_each run w hs = Some w1"
  shows "\<exists>w2. create_entities (length hs) w1 = Some (w2, map recycled (rev hs))
      \<and> (hs \<noteq> [] \<longrightarrow> avail_id w1 = get_entity_id (last hs))
      \<and> avail_id w2 = avail_id w \<and> entity_count w2 = entity_count w
      \<and> World_count w2 = World_count w
      \<and> (\<forall>h \<in> set hs. Entity_valid w1 h = Some False \<and> Entity_valid w2 h = Some False
            \<and> Entity_valid w2 (recycled h) = Some True)
      \<and> (\<forall>e. Entity_valid w e = Some True \<and> e \<notin> set hs \<longrightarrow> Entity_valid w2 e = Some True)"
proof -
  have inj: "inj_on slot (set hs)"
    using live by (auto intro!: inj_onI live_slot_unique)
  with dist have d: "distinct (map slot hs)" by (simp add: distinct_map)
  from live slots have l: "\<forall>h \<in> set hs. Entity_valid w h = Some True \<and> get_entity_id h \<noteq> null_entity_id"
    by simp
  from lifo_core [OF l d destroyed] obtain w2 where c:
    "create_entities (length hs) w1 = Some (w2, map recycled (rev hs))"
    "avail_id w2 = avail_id w" "entity_count w2 = entity_count w" "alive_count w2 = alive_count w"
    "length (cells (entities w2)) = length (cells (entities w))"
    "\<And>s. s \<notin> slot ` set hs \<Longrightarrow> cells (entities w2) ! s = cells (entities w) ! s"
    "\<And>k. k \<in> set hs \<Longrightarrow> cells (entities w2) ! slot k = Some (recycled k)"
    "entity_count w1 = entity_count w"
    "length (cells (entities w1)) = length (cells (entities w))"
    "\<And>k. k \<in> set hs \<Longrightarrow> \<exists>c. cells (entities w1) ! slot k = Some c
              \<and> get_entity_version c = get_entity_version k + 1"
    "hs \<noteq> [] \<Longrightarrow> avail_id w1 = get_entity_id (last hs)"
    by blast
  have each: "Entity_valid w1 h = Some False \<and> Entity_valid w2 h = Some False
            \<and> Entity_valid w2 (recycled h) = Some True" if h: "h \<in> set hs" for h
  proof -
    from live h have b: "slot h < entity_count w" "slot h < length (cells (entities w))"
      by (simp_all add: Entity_valid_iff)
    from c(10) [OF h] obtain x where x: "cells (entities w1) ! slot h = Some x"
      "get_entity_version x = get_entity_version h + 1" by blast
    from x(2) have "x \<noteq> h" by auto
    with b x(1) have "Entity_valid w1 h = Some False"
      by (intro Entity_valid_False [where c = x]) (simp_all add: c)
    moreover from b c(7) [OF h] have "Entity_valid w2 h = Some False"
      by (intro Entity_valid_False [where c = "recycled h"]) (simp_all add: c recycled_neq)
    moreover from b c(7) [OF h] have "Entity_valid w2 (recycled h) = Some True"
      by (simp add: Entity_valid_iff slot_recycled c)
    ultimately show ?thesis by simp
  qed
  have others: "Entity_valid w2 e = Some True" if e: "Entity_valid w e = Some True" "e \<notin> set hs" for e
  proof -
    have "slot e \<notin> slot ` set hs"
    proof
      assume "slot e \<in> slot ` set hs"
      then obtain h where h: "h \<in> set hs" "slot e = slot h" by auto
      with live have "Entity_valid w h = Some True" by simp
      from live_slot_unique [OF e(1) this h(2)] h(1) e(2) show False by simp
    qed
    from c(6) [OF this] e(1) show ?thesis by (simp add: Entity_valid_iff c)
  qed
  from c(1,2,3,4,11) each others show ?thesis by (auto simp: World_count_def)
qed

theorem recycle_is_lifo_witness:
  "create_entities 10 (World_default ()) = Some (ten_entities, [0, 1, 2, 3, 4, 5, 6, 7, 8, 9])
   \<and> Entity_valid ten_entities 4 = Some True \<and> Entity_valid ten_entities 7 = Some True
   \<and> get_entity_id (4 :: Entity_Handle) \<noteq> null_entity_id
   \<and> get_entity_id (7 :: Entity_Handle) \<noteq> null_entity_id
   \<and> (\<exists>w1 w2 e. Entity_destroy no_hooks ten_entities 4 = Some w1
         \<and> avail_id w1 = 4
         \<and> new_entity w1 = Some (w2, e)
         \<and> get_entity_id e = 4 \<and> get_entity_version e = 1
         \<and> Entity_valid w2 e = Some True \<and> Entity_valid w2 4 = Some False
         \<and> avail_id w2 = avail_id ten_entities \<and> World_count w2 = 10)
   \<and> (\<exists>w1 w2 e f. destroy_each no_hooks ten_entities [4, 7] = Some w1
         \<and> avail_id w1 = 7
         \<and> create_entities 2 w1 = Some (w2, [e, f])
         \<and> get_entity_id e = 7 \<and> get_entity_version e = 1
         \<and> get_entity_id f = 4 \<and> get_entity_version f = 1
         \<and> Entity_valid w2 4 = Some False \<and> Entity_valid w2 7 = Some False
         \<and> avail_id w2 = avail_id ten_entities \<and> World_count w2 = 10)"
proof -
  have created: "create_entities 10 (World_default ()) = Some (ten_entities, [0, 1, 2, 3, 4, 5, 6, 7, 8, 9])"
    by code_simp
  have live: "Entity_valid ten_entities 4 = Some True" "Entity_valid ten_entities 7 = Some True"
    by code_simp+
  have slots: "get_entity_id (4 :: Entity_Handle) \<noteq> null_entity_id"
    "get_entity_id (7 :: Entity_Handle) \<noteq> null_entity_id"
    by code_simp+
  have ids: "get_entity_id (4 :: Entity_Handle) = 4" "get_entity_version (4 :: Entity_Handle) = 0"
    "get_entity_id (7 :: Entity_Handle) = 7" "get_entity_version (7 :: Entity_Handle) = 0"
    by (simp_all add: get_entity_id_def get_entity_version_def)
  have cnt: "World_count ten_entities = 10"
    by (simp add: World_count_def ten_entities_def)
  have "Entity_destroy no_hooks ten_entities 4 \<noteq> None"
    by code_simp
  then obtain w1 where d1: "destroy_each no_hooks ten_entities [4] = Some w1"
    by (auto simp: destroy_each_one)
  have "destroy_each no_hooks ten_entities [4, 7] \<noteq> None"
    by code_simp
  then obtain v1 where d2: "destroy_each no_hooks ten_entities [4, 7] = Some v1"
    by blast
  have h1: "\<forall>h \<in> set [4 :: Entity_Handle]. Entity_valid ten_entities h = Some True"
    and s1: "\<forall>h \<in> set [4 :: Entity_Handle]. get_entity_id h \<noteq> null_entity_id"
    and h2: "\<forall>h \<in> set [4 :: Entity_Handle, 7]. Entity_valid ten_entities h = Some True"
    and s2: "\<forall>h \<in> set [4 :: Entity_Handle, 7]. get_entity_id h \<noteq> null_entity_id"
    using live slots by simp_all
  have len: "create_entities (length [4 :: Entity_Handle]) w1 = create_entities (Suc 0) w1"
    "create_entities (length [4 :: Entity_Handle, 7]) v1 = create_entities 2 v1"
    by (simp_all add: numeral_2_eq_2)
  from recycle_is_lifo [OF h1 s1 _ d1] obtain w2 where one0:
    "create_entities (length [4 :: Entity_Handle]) w1 = Some (w2, map recycled (rev [4]))"
    "[4 :: Entity_Handle] \<noteq> [] \<longrightarrow> avail_id w1 = get_entity_id (last [4 :: Entity_Handle])"
    "avail_id w2 = avail_id ten_entities" "World_count w2 = World_count ten_entities"
    "\<forall>h \<in> set [4]. Entity_valid w1 h = Some False \<and> Entity_valid w2 h = Some False
            \<and> Entity_valid w2 (recycled h) = Some True"
    by auto
  then have one:
    "create_entities (Suc 0) w1 = Some (w2, [recycled 4])" "avail_id w1 = 4"
    "avail_id w2 = avail_id ten_entities" "World_count w2 = 10"
    "Entity_valid w2 4 = Some False" "Entity_valid w2 (recycled 4) = Some True"
    unfolding len by (simp_all add: ids cnt)
  from recycle_is_lifo [OF h2 s2 _ d2] obtain v2 where two0:
    "create_entities (length [4 :: Entity_Handle, 7]) v1 = Some (v2, map recycled (rev [4, 7]))"
    "[4 :: Entity_Handle, 7] \<noteq> [] \<longrightarrow> avail_id v1 = get_entity_id (last [4 :: Entity_Handle, 7])"
    "avail_id v2 = avail_id ten_entities" "World_count v2 = World_count ten_entities"
    "\<forall>h \<in> set [4, 7]. Entity_valid v1 h = Some False \<and> Entity_valid v2 h = Some False
            \<and> Entity_valid v2 (recycled h) = Some True"
    by auto
  then have two:
    "create_entities 2 v1 = Some (v2, [recycled 7, recycled 4])" "avail_id v1 = 7"
    "avail_id v2 = avail_id ten_entities" "World_count v2 = 10"
    "Entity_valid v2 4 = Some False" "Entity_valid v2 7 = Some False"
    unfolding len by (simp_all add: ids cnt)
  from one(1) have n1: "new_entity w1 = Some (w2, recycled 4)"
    by (auto split: bind_splits)
  have r: "get_entity_id (recycled 4) = 4" "get_entity_version (recycled 4) = 1"
    "get_entity_id (recycled 7) = 7" "get_entity_version (recycled 7) = 1"
    by (simp_all add: recycled_def ids get_entity_id_make_handle get_entity_version_make_handle)
  from d1 have d1': "Entity_destroy no_hooks ten_entities 4 = Some w1"
    by (simp add: destroy_each_one)
  show ?thesis
    using created live slots d1' n1 one(2-) d2 two r by blast
qed

text \<open>
  Without the condition on the slots the claim fails. After \<open>2 ^ 32\<close> calls of \<open>new_entity\<close>
  on a fresh World the handle \<open>4294967295\<close> is live and its slot is \<open>null_entity_id\<close>.
  \<open>destroy\<close> makes that slot the head of the free list, which \<open>new_entity\<close> reads as an
  empty list: it generates the slot \<open>2 ^ 32\<close>, whose number does not fit the 32 bits of a
  slot, and returns the handle \<open>0\<close>, slot 0 with version 0, which is the handle of a
  live entity.
\<close>

theorem sentinel_slot_is_not_recycled:
  "\<exists>w hs w1 w2 e. create_entities (2 ^ 32) (World_default ()) = Some (w, hs)
     \<and> entity_count w = 2 ^ 32
     \<and> Entity_valid w 4294967295 = Some True
     \<and> get_entity_id (4294967295 :: Entity_Handle) = null_entity_id
     \<and> Entity_destroy no_hooks w 4294967295 = Some w1
     \<and> avail_id w1 = null_entity_id
     \<and> new_entity w1 = Some (w2, e)
     \<and> get_entity_id e = 0 \<and> get_entity_version e = 0
     \<and> Entity_valid w e = Some True"
proof -
  let ?h = "4294967295 :: Entity_Handle"
  let ?w0 = "World_default () :: (unit, unit) World"
  have "table_inv ?w0" "entity_count ?w0 = 0" "avail_id ?w0 = null_entity_id"
    "pool_count ?w0 = 0" "alive_count ?w0 = of_nat 0"
    "\<forall>s < 0. cells (entities ?w0) ! s = Some (make_handle (of_nat s) 0)"
    by (simp_all add: World_default_def table_inv_def)
  from create_fresh [OF this, of "2 ^ 32"] obtain w hs where w:
    "create_entities (2 ^ 32) ?w0 = Some (w, hs)" "table_inv w" "entity_count w = 2 ^ 32"
    "avail_id w = null_entity_id" "pool_count w = 0"
    "\<And>s. s < 2 ^ 32 \<Longrightarrow> cells (entities w) ! s = Some (make_handle (of_nat s) 0)"
    by auto
  from w(2,3) have len: "2 ^ 32 \<le> length (cells (entities w))"
    by (simp add: table_inv_iff)
  have live: "Entity_valid w ?h = Some True"
    using w(6) [of 4294967295] len by (simp add: Entity_valid_iff sentinel_handle w(3))
  have zero: "Entity_valid w 0 = Some True"
    using w(6) [of 0] len by (auto simp: Entity_valid_iff sentinel_handle w(3))
  have "Entity_destroy no_hooks w ?h \<noteq> None"
    using live len
    by (simp add: Entity_destroy_def assert_def w(5) release_entity_def Let_def store_eq
        sentinel_handle null_entity_id_def unsigned_minus_1_eq_mask mask_eq_exp_minus_1)
  then obtain w1 where d: "Entity_destroy no_hooks w ?h = Some w1" by blast
  from Entity_destroy_table [OF d] have t:
    "cells (entities w1) = (cells (entities w))[slot ?h := Some (make_handle (avail_id w) (get_entity_version ?h + 1))]"
    "avail_id w1 = get_entity_id ?h" "entity_count w1 = entity_count w"
    "slot ?h < length (cells (entities w))"
    by simp_all
  from d have keep: "entity_capacity w1 = entity_capacity w"
    by (auto simp: Entity_destroy_def assert_def release_entity_def Let_def
        split: bind_splits if_splits dest!: destroy_pools_table simp: same_table_def)
  have t1: "table_inv (w1\<lparr>alive_count := alive_count w1 + 1\<rparr>)"
    using w(2) t(4) by (auto simp: table_inv_iff t(1,3) keep nth_list_update)
  from generate_entity_total [OF t1] obtain w2 e where
    gen: "generate_entity (w1\<lparr>alive_count := alive_count w1 + 1\<rparr>) = Some (w2, e)"
    by blast
  from generate_entity_effect [OF t1 gen] have e: "e = 0"
    by (simp add: t(3) w(3) sentinel_handle)
  have new: "new_entity w1 = Some (w2, e)"
    using gen by (simp add: new_entity_def Let_def t(2) sentinel_handle)
  show ?thesis
    using w(1,3) live sentinel_handle(1) d t(2) new e zero
    by (auto simp: sentinel_handle)
qed

section \<open>Views\<close>















section \<open>The iteration depth\<close>

text \<open>
  Claim C3 says that \<open>valid()\<close> lowers \<open>iteration_depth\<close> on the transition to exhausted
  only, once in the life of a view. \<open>View::valid\<close> keeps no record of that transition: it
  lowers the depth on every call that finds no current entity. With the view \<open>a\<close> standing
  on an entity and the empty view \<open>b\<close>, the depth is 2; the three blocks the pool has left
  behind and the old pool array wait in the deferred-free buffer, where the reference \<open>r\<close>
  still reads the component of the current entity and where the pool pointers of \<open>a\<close>
  still lead. The first \<open>b.valid()\<close> brings the depth to 1 and frees nothing. The second
  brings it to 0 and frees the four blocks while \<open>a.valid()\<close> is true: nothing is left
  behind \<open>r\<close>, and \<open>a.next()\<close> and \<open>a.get<T>()\<close> read the freed pool array. A third call
  brings the depth to -1.
\<close>

theorem second_valid_frees_what_a_view_uses:
  "(case two_views of None \<Rightarrow> False
    | Some (w, a, b, r) \<Rightarrow>
        iteration_depth w = 2
        \<and> View_get_entity a = 7 \<and> snd (View_valid w a) \<and> iteration_depth (fst (View_valid w a)) = 2
        \<and> \<not> snd (View_valid w b)
        \<and> entry_addresses (delete_buffer w) = [3, 12, 5, 2]
        \<and> set (heap_freed w) \<inter> {3, 12, 5, 2} = {}
        \<and> r = (Some 3, 14) \<and> deref w r 2 = Some [Some 7, Some 255]
        \<and> pool a = Some (2, 0) \<and> address (pools w) = Some 16
        \<and> map_option View_get_entity (View_next w a) = Some 6
        \<and> View_get w a 7 = Some (Some 13, 14)
        \<and> (let w1 = fst (View_valid w b) in
              iteration_depth w1 = 1
              \<and> entry_addresses (delete_buffer w1) = [3, 12, 5, 2] \<and> heap_freed w1 = heap_freed w
              \<and> deref w1 r 2 = Some [Some 7, Some 255]
              \<and> map_option View_get_entity (View_next w1 a) = Some 6
              \<and> \<not> snd (View_valid w1 b)
              \<and> (let w2 = fst (View_valid w1 b) in
                    iteration_depth w2 = 0
                    \<and> delete_buffer w2 = [] \<and> heap_freed w2 = [2, 5, 12, 3] @ heap_freed w
                    \<and> snd (View_valid w2 a)
                    \<and> deref w2 r 2 = None
                    \<and> View_next w2 a = None
                    \<and> View_get w2 a 7 = None
                    \<and> iteration_depth (fst (View_valid w2 b)) = - 1)))"
  by code_simp

section \<open>Shrinking the pools\<close>

text \<open>
  Claim C1 says that \<open>collect_garbage\<close> shrinks a pool with more than 8 live elements and a
  capacity above twice that number to the next multiple of 8, and that every entity of
  the pool keeps answering \<open>has\<close> and keeps its payload bytes. The capacity and \<open>has\<close> are
  as claimed, the payload is not: the copy into the new block is \<open>capacity\<close> elements of
  one byte long, not \<open>capacity * element_size\<close>. With nine two-byte components in a pool
  of capacity 32 and no view open, the pool shrinks to 16 and the component of the entity
  of slot 8, at bytes 16 and 17, is left uninitialised.
\<close>

theorem collect_garbage_drops_payload:
  "(case thinned of None \<Rightarrow> False
    | Some w \<Rightarrow>
        (case index (pools w) 0 of None \<Rightarrow> False
         | Some p \<Rightarrow> count p = 9 \<and> capacity p = 32 \<and> element_size p = 2)
        \<and> iteration_depth w = 0
        \<and> Entity_has w 8 7 2 = Some (w, True)
        \<and> component_value w 8 7 2 = Some [Some 8, Some 255]
        \<and> (case collect_garbage w of None \<Rightarrow> False
            | Some w' \<Rightarrow>
                (case index (pools w') 0 of None \<Rightarrow> False
                 | Some p' \<Rightarrow> count p' = 9 \<and> capacity p' = 16)
                \<and> Entity_has w' 8 7 2 = Some (w', True)
                \<and> component_value w' 8 7 2 = Some [None, None]))"
  by code_simp

section \<open>Freeing while a view is open\<close>

text \<open>
  Claim C2 says that no buffer replaced by a reallocation is freed while
  \<open>iteration_depth > 0\<close>, the identity table included. \<open>generate_entity\<close> does not look at
  the depth: with a view open and the identity table full, \<open>new_entity\<close> frees the old
  table at once and leaves the deferred-free buffer empty.
\<close>

theorem generate_entity_frees_during_view:
  "(case full_table_in_view of None \<Rightarrow> False
    | Some w \<Rightarrow>
        iteration_depth w = 1 \<and> entity_count w = 8 \<and> entity_capacity w = 8
        \<and> (case entities w of nullptr \<Rightarrow> False | Array a cs \<Rightarrow> a = 0)
        \<and> heap_freed w = [] \<and> delete_buffer w = []
        \<and> (case new_entity w of None \<Rightarrow> False
            | Some (w', e) \<Rightarrow>
                iteration_depth w' = 1 \<and> entity_capacity w' = 16
                \<and> (case entities w' of nullptr \<Rightarrow> False | Array a cs \<Rightarrow> a = 1)
                \<and> heap_freed w' = [0] \<and> delete_buffer w' = []))"
  by code_simp

section \<open>Removing a component\<close>

text \<open>
  Claim C6. In a pool that satisfies the sparse-set invariant, \<open>remove(e)\<close> of an entity
  \<open>e\<close> present in it succeeds once the hook has run; afterwards \<open>has(e)\<close> is false, and
  every other entity that was in the pool still answers \<open>has\<close> true and has the same payload
  bytes as before.
\<close>

theorem remove_keeps_the_others:
  assumes pool: "index (pools w) i = Some p"
    and wf: "sparse_set p"
    and present: "Some e \<in> set (dense_list p)"
    and hook: "fire run (on_destroy p) w e \<noteq> None"
  shows "\<exists>w' p'. Component_Pool_remove run w i e = Some w' \<and> index (pools w') i = Some p'
          \<and> Component_Pool_has p' e = Some False
          \<and> (\<forall>e'. Some e' \<in> set (dense_list p) \<and> e' \<noteq> e \<longrightarrow>
                Component_Pool_has p e' = Some True \<and> Component_Pool_has p' e' = Some True
                \<and> pool_value p e' \<noteq> None \<and> pool_value p' e' = pool_value p e')"
proof -
  from hook obtain w1 where w1: "fire run (on_destroy p) w e = Some w1" by blast
  from fire_frame(6) [OF w1] have ps: "pools w1 = pools w" .
  from swap_and_pop_sparse_set [OF wf present] obtain p' where
    p': "swap_and_pop p e = Some p'" "sparse_set p'"
      "set (dense_list p') = set (dense_list p) - {Some e}"
      "Component_Pool_has p' e = Some False"
      "\<forall>e'. Some e' \<in> set (dense_list p) \<and> e' \<noteq> e \<longrightarrow>
          pool_value p e' \<noteq> None \<and> pool_value p' e' = pool_value p e'"
    by blast
  from pool have inb: "i < length (cells (pools w))" by (simp add: index_cells)
  then have nn: "pools w \<noteq> nullptr" by (rule length_pos_not_null)
  let ?ps = "with_cells (pools w) ((cells (pools w))[i := p'])"
  have run: "Component_Pool_remove run w i e = Some (w1\<lparr>pools := ?ps\<rparr>)"
    using pool w1 p'(1) inb by (simp add: Component_Pool_remove_def ps store_eq)
  have idx: "index (pools (w1\<lparr>pools := ?ps\<rparr>)) i = Some p'"
    using inb nn by (simp add: index_cells cells_with_cells)
  have others: "Component_Pool_has p e' = Some True \<and> Component_Pool_has p' e' = Some True"
    if "Some e' \<in> set (dense_list p)" "e' \<noteq> e" for e'
  proof -
    from that p'(3) have "Some e' \<in> set (dense_list p')" by simp
    with that(1) wf p'(2) show ?thesis by (simp add: member_has)
  qed
  show ?thesis
    using run idx p'(4,5) others by blast
qed

theorem remove_keeps_the_others_witness:
  "\<exists>w p w' p'. three_components = Some w \<and> index (pools w) 0 = Some p
      \<and> sparse_set p \<and> Some 0 \<in> set (dense_list p) \<and> fire no_hooks (on_destroy p) w 0 \<noteq> None
      \<and> Component_Pool_remove no_hooks w 0 0 = Some w' \<and> index (pools w') 0 = Some p'
      \<and> Component_Pool_has p' 0 = Some False
      \<and> Component_Pool_has p' 1 = Some True \<and> pool_value p' 1 = Some [Some 1, Some 255]
      \<and> Component_Pool_has p' 2 = Some True \<and> pool_value p' 2 = Some [Some 2, Some 255]"
proof -
  have "(case three_components of None \<Rightarrow> False
         | Some w \<Rightarrow> (case index (pools w) 0 of None \<Rightarrow> False
              | Some p \<Rightarrow> sparse_set p \<and> Some 0 \<in> set (dense_list p)
                  \<and> Some 1 \<in> set (dense_list p) \<and> Some 2 \<in> set (dense_list p)
                  \<and> fire no_hooks (on_destroy p) w 0 \<noteq> None
                  \<and> pool_value p 1 = Some [Some 1, Some 255]
                  \<and> pool_value p 2 = Some [Some 2, Some 255]))"
    by code_simp
  then obtain w p where w: "three_components = Some w" and pool: "index (pools w) 0 = Some p"
    and wf: "sparse_set p" and present: "Some 0 \<in> set (dense_list p)"
    and others: "Some 1 \<in> set (dense_list p)" "Some 2 \<in> set (dense_list p)"
    and hook: "fire no_hooks (on_destroy p) w 0 \<noteq> None"
    and vals: "pool_value p 1 = Some [Some 1, Some 255]" "pool_value p 2 = Some [Some 2, Some 255]"
    by (auto split: option.splits)
  from remove_keeps_the_others [OF pool wf present hook] obtain w' p' where
    r: "Component_Pool_remove no_hooks w 0 0 = Some w'" "index (pools w') 0 = Some p'"
      "Component_Pool_has p' 0 = Some False"
      "\<forall>e'. Some e' \<in> set (dense_list p) \<and> e' \<noteq> 0 \<longrightarrow>
          Component_Pool_has p e' = Some True \<and> Component_Pool_has p' e' = Some True
          \<and> pool_value p e' \<noteq> None \<and> pool_value p' e' = pool_value p e'"
    by blast
  from r(4) others vals have
    "Component_Pool_has p' 1 = Some True" "pool_value p' 1 = Some [Some 1, Some 255]"
    "Component_Pool_has p' 2 = Some True" "pool_value p' 2 = Some [Some 2, Some 255]"
    by auto
  with w pool wf present hook r(1,2,3) show ?thesis by blast
qed

end
